theory Spec2Isabelle
  imports Complex_Main "HOL-Library.Sublist"
begin

section \<open>JavaScript strings\<close>

text \<open>
  A JavaScript string is a sequence of UTF-16 code units. The model keeps a code unit as
  its number, so that the white space of the language (which has members beyond Latin-1)
  and the two angle quotes of the language label are single elements, as they are for
  \<^verbatim>\<open>trim\<close>, \<^verbatim>\<open>slice\<close>, \<^verbatim>\<open>startsWith\<close> and the regular expression engine.
\<close>

type_synonym jstring = "nat list"

definition cu :: "string \<Rightarrow> jstring" where
  "cu s = map of_char s"

definition ESC :: nat where "ESC = 27"
definition LF :: nat where "LF = 10"
definition CR :: nat where "CR = 13"
definition SPACE :: nat where "SPACE = 32"
definition BACKTICK :: nat where "BACKTICK = 96"
definition DOLLAR :: nat where "DOLLAR = 36"

text \<open>
  White space and line terminators of ECMAScript: what \<^verbatim>\<open>\s\<close> matches and what
  \<^verbatim>\<open>trim\<close> and \<^verbatim>\<open>trimEnd\<close> strip (TAB, LF, VT, FF, CR, SP, NBSP, the
  category Zs, LS, PS and the byte order mark).
\<close>

definition is_space :: "nat \<Rightarrow> bool" where
  "is_space c \<longleftrightarrow>
     (9 \<le> c \<and> c \<le> 13) \<or> c = 32 \<or> c = 160 \<or> c = 5760 \<or> (8192 \<le> c \<and> c \<le> 8202) \<or>
     c = 8232 \<or> c = 8233 \<or> c = 8239 \<or> c = 8287 \<or> c = 12288 \<or> c = 65279"

definition trimStart :: "jstring \<Rightarrow> jstring" where
  "trimStart s = dropWhile is_space s"

definition trimEnd :: "jstring \<Rightarrow> jstring" where
  "trimEnd s = rev (dropWhile is_space (rev s))"

definition trim :: "jstring \<Rightarrow> jstring" where
  "trim s = trimEnd (trimStart s)"

definition startsWith :: "jstring \<Rightarrow> jstring \<Rightarrow> bool" where
  "startsWith s p = prefix p s"

section \<open>The outer fence: \<^verbatim>\<open>stripOuterMarkdownFence\<close>\<close>

text \<open>
  The regular expression of the source is
  \<^verbatim>\<open>/^```\s*(markdown|md)\s*\r?\n([\s\S]*?)\r?\n```\s*$/i\<close>.
  It is run by a backtracking engine: a greedy star tries the longer match first, a lazy
  star the shorter one, an alternative its branches from left to right; the first way of
  matching the whole expression that succeeds is the match, and the second group of that
  match is the result. Each construct becomes a matcher that takes the continuation of
  the expression (what has to match the rest of the input) and the rest of the input.
\<close>

type_synonym 'r matcher = "(jstring \<Rightarrow> 'r option) \<Rightarrow> jstring \<Rightarrow> 'r option"

text \<open>
  With the flag \<^verbatim>\<open>i\<close> and without \<^verbatim>\<open>u\<close>, two code units match when their
  canonical forms agree: the upper case of the unit, except that a unit outside ASCII is
  never mapped into ASCII. For the letters of the two keywords this is ASCII case folding.
\<close>

definition canonicalize :: "nat \<Rightarrow> nat" where
  "canonicalize c = (if 97 \<le> c \<and> c \<le> 122 then c - 32 else c)"

definition lit :: "jstring \<Rightarrow> 'r matcher" where
  "lit p k xs = (if prefix p xs then k (drop (length p) xs) else None)"

definition lit_ci :: "jstring \<Rightarrow> 'r matcher" where
  "lit_ci p k xs =
     (if length p \<le> length xs \<and> map canonicalize (take (length p) xs) = map canonicalize p
      then k (drop (length p) xs) else None)"

definition alt :: "'r matcher \<Rightarrow> 'r matcher \<Rightarrow> 'r matcher" where
  "alt m1 m2 k xs = (case m1 k xs of Some r \<Rightarrow> Some r | None \<Rightarrow> m2 k xs)"

fun star_greedy :: "(nat \<Rightarrow> bool) \<Rightarrow> 'r matcher" where
  "star_greedy P k [] = k []"
| "star_greedy P k (c # cs) =
     (if P c then (case star_greedy P k cs of Some r \<Rightarrow> Some r | None \<Rightarrow> k (c # cs))
      else k (c # cs))"

fun opt_greedy :: "nat \<Rightarrow> 'r matcher" where
  "opt_greedy a k [] = k []"
| "opt_greedy a k (c # cs) =
     (if c = a then (case k cs of Some r \<Rightarrow> Some r | None \<Rightarrow> k (c # cs)) else k (c # cs))"

text \<open>
  The lazy \<^verbatim>\<open>([\s\S]*?)\<close>: any code unit, as few as possible; the units taken so far
  are the capture, handed to the continuation.
\<close>

fun lazy_any :: "(jstring \<Rightarrow> jstring \<Rightarrow> 'r option) \<Rightarrow> jstring \<Rightarrow> jstring \<Rightarrow> 'r option" where
  "lazy_any k acc [] = k acc []"
| "lazy_any k acc (c # cs) =
     (case k acc (c # cs) of Some r \<Rightarrow> Some r | None \<Rightarrow> lazy_any k (acc @ [c]) cs)"

definition eos :: "'r \<Rightarrow> jstring \<Rightarrow> 'r option" where
  "eos r xs = (if xs = [] then Some r else None)"

definition fence3 :: jstring where
  "fence3 = [BACKTICK, BACKTICK, BACKTICK]"

definition fence_close :: "jstring \<Rightarrow> jstring \<Rightarrow> jstring option" where
  "fence_close cap =
     opt_greedy CR (lit [LF] (lit fence3 (star_greedy is_space (eos cap))))"

definition fence_regex :: "jstring \<Rightarrow> jstring option" where
  "fence_regex =
     lit fence3 (star_greedy is_space
       (alt (lit_ci (cu ''markdown'')) (lit_ci (cu ''md''))
          (star_greedy is_space (opt_greedy CR (lit [LF] (lazy_any fence_close []))))))"

definition stripOuterMarkdownFence :: "jstring \<Rightarrow> jstring" where
  "stripOuterMarkdownFence text =
     (case fence_regex (trim text) of None \<Rightarrow> text | Some inner \<Rightarrow> inner)"

section \<open>Options and the patch state\<close>

record options =
  enabled :: bool
  unwrapOuterMarkdownFence :: bool
  hideCodeFences :: bool
  showCodeFenceLanguageLabel :: bool
  stripHeadingPrefixes :: bool
  codeBlockBgKey :: "jstring option"
  codeBlockBgAnsi :: "jstring option"
  codeBlockIndent :: jstring

record patch_state =
  revision :: nat
  opts :: options

definition defaults :: options where
  "defaults =
     \<lparr>enabled = True, unwrapOuterMarkdownFence = True, hideCodeFences = True,
      showCodeFenceLanguageLabel = False, stripHeadingPrefixes = True,
      codeBlockBgKey = Some (cu ''toolPendingBg''), codeBlockBgAnsi = None,
      codeBlockIndent = replicate 4 SPACE\<rparr>"

text \<open>
  \<^verbatim>\<open>getPatchState\<close>: the state kept under the global key is reused when there is one
  (its revision and its options are kept), and built from the defaults at revision 0
  otherwise.
\<close>

definition getPatchState :: "patch_state option \<Rightarrow> patch_state" where
  "getPatchState g =
     (case g of Some existingState \<Rightarrow> existingState
      | None \<Rightarrow> \<lparr>revision = 0, opts = defaults\<rparr>)"

text \<open>
  A string is truthy when it is defined and not empty: the test the source makes on
  \<^verbatim>\<open>options.codeBlockBgAnsi\<close>, on \<^verbatim>\<open>baseIndent\<close> and on \<^verbatim>\<open>lang\<close>.
\<close>

definition truthy :: "jstring option \<Rightarrow> bool" where
  "truthy v = (case v of None \<Rightarrow> False | Some s \<Rightarrow> s \<noteq> [])"

section \<open>Background injection: \<^verbatim>\<open>applyCodeBg\<close>\<close>

text \<open>
  \<^verbatim>\<open>String.prototype.replaceAll\<close> with a string pattern and a string replacement. The
  replacement is a template: \<^verbatim>\<open>$$\<close> stands for a dollar sign, \<^verbatim>\<open>$&\<close> for the
  matched text, \<^verbatim>\<open>$`\<close> for the text before the match and \<^verbatim>\<open>$'\<close> for the text after
  it; a dollar sign before anything else stands for itself (there are no capture groups).
\<close>

fun getSubstitution :: "jstring \<Rightarrow> jstring \<Rightarrow> jstring \<Rightarrow> jstring \<Rightarrow> jstring" where
  "getSubstitution matched before after [] = []"
| "getSubstitution matched before after [c] = [c]"
| "getSubstitution matched before after (c # d # r) =
     (if c = DOLLAR then
        (if d = DOLLAR then DOLLAR # getSubstitution matched before after r
         else if d = 96 then before @ getSubstitution matched before after r
         else if d = 38 then matched @ getSubstitution matched before after r
         else if d = 39 then after @ getSubstitution matched before after r
         else c # getSubstitution matched before after (d # r))
      else c # getSubstitution matched before after (d # r))"

text \<open>
  The occurrences are searched from left to right, each search starting behind the
  previous occurrence (one unit further for the empty pattern). \<open>passed\<close> is the part of
  the string already passed, \<open>rest\<close> the part still to scan.
\<close>

function replaceAll_from :: "jstring \<Rightarrow> jstring \<Rightarrow> jstring \<Rightarrow> jstring \<Rightarrow> jstring" where
  "replaceAll_from search repl passed rest =
     (if prefix search rest then
        getSubstitution search passed (drop (length search) rest) repl @
        (if search = [] then
           (case rest of [] \<Rightarrow> [] | c # cs \<Rightarrow> c # replaceAll_from search repl (passed @ [c]) cs)
         else replaceAll_from search repl (passed @ search) (drop (length search) rest))
      else (case rest of [] \<Rightarrow> [] | c # cs \<Rightarrow> c # replaceAll_from search repl (passed @ [c]) cs))"
  by pat_completeness auto
termination
  by (relation "measure (\<lambda>(search, repl, passed, rest). length rest)") (auto simp: prefix_def)

declare replaceAll_from.simps [simp del]

definition replaceAll :: "jstring \<Rightarrow> jstring \<Rightarrow> jstring \<Rightarrow> jstring" where
  "replaceAll search repl s = replaceAll_from search repl [] s"

text \<open>The full reset \<^verbatim>\<open>ESC[0m\<close> and the background reset \<^verbatim>\<open>ESC[49m\<close>.\<close>

definition reset0 :: jstring where
  "reset0 = ESC # cu ''[0m''"

definition reset49 :: jstring where
  "reset49 = ESC # cu ''[49m''"

definition applyCodeBg :: "options \<Rightarrow> jstring \<Rightarrow> jstring" where
  "applyCodeBg options s =
     (if \<not> truthy (codeBlockBgAnsi options) then s
      else
        let bg = the (codeBlockBgAnsi options);
            stable = replaceAll reset49 bg (replaceAll reset0 (reset0 @ bg) s)
        in bg @ stable)"

section \<open>The theme and its wrapped functions\<close>

text \<open>
  The fields of the host's \<^verbatim>\<open>MarkdownTheme\<close> that the extension reads or replaces. The
  functions are the theme's own; the highlighter and the indent are optional.
\<close>

record theme =
  heading :: "jstring \<Rightarrow> jstring"
  bold :: "jstring \<Rightarrow> jstring"
  underline :: "jstring \<Rightarrow> jstring"
  codeBlock :: "jstring \<Rightarrow> jstring"
  codeBlockBorder :: "jstring \<Rightarrow> jstring"
  highlightCode :: "(jstring \<Rightarrow> jstring option \<Rightarrow> jstring list) option"
  theme_codeBlockIndent :: "jstring option"

record theme_originals =
  orig_codeBlock :: "jstring \<Rightarrow> jstring"
  orig_codeBlockBorder :: "jstring \<Rightarrow> jstring"
  orig_highlightCode :: "(jstring \<Rightarrow> jstring option \<Rightarrow> jstring list) option"
  orig_codeBlockIndent :: "jstring option"

text \<open>The angle quotes around the language label, U+2039 and U+203A.\<close>

definition LAQUO :: nat where "LAQUO = 8249"
definition RAQUO :: nat where "RAQUO = 8250"

text \<open>
  The replacement of \<^verbatim>\<open>theme.codeBlockBorder\<close>. \<open>indent\<close> is the value of
  \<^verbatim>\<open>theme.codeBlockIndent\<close> when the border is drawn, \<open>originalBorder\<close> the theme's own
  border function.
\<close>

definition codeBlockBorder_wrapper ::
  "options \<Rightarrow> jstring option \<Rightarrow> (jstring \<Rightarrow> jstring) \<Rightarrow> jstring \<Rightarrow> jstring" where
  "codeBlockBorder_wrapper options indent originalBorder t =
     (if \<not> enabled options \<or> \<not> hideCodeFences options then applyCodeBg options (originalBorder t)
      else if \<not> startsWith t fence3 then applyCodeBg options (originalBorder t)
      else
        let lang = trim (drop 3 t) in
        if lang = [] then
          (if truthy (codeBlockBgAnsi options) then the (codeBlockBgAnsi options) else [])
        else if \<not> showCodeFenceLanguageLabel options then
          (if truthy (codeBlockBgAnsi options) then the (codeBlockBgAnsi options) else [])
        else
          let indent' = (case indent of None \<Rightarrow> [SPACE, SPACE] | Some i \<Rightarrow> i);
              label = originalBorder ([LAQUO] @ lang @ [RAQUO])
          in applyCodeBg options (indent' @ label))"

definition codeBlock_wrapper :: "options \<Rightarrow> (jstring \<Rightarrow> jstring) \<Rightarrow> jstring \<Rightarrow> jstring" where
  "codeBlock_wrapper options originalCodeBlock t = applyCodeBg options (originalCodeBlock t)"

definition highlightCode_wrapper ::
  "options \<Rightarrow> (jstring \<Rightarrow> jstring option \<Rightarrow> jstring list) \<Rightarrow>
   jstring \<Rightarrow> jstring option \<Rightarrow> jstring list" where
  "highlightCode_wrapper options originalHighlight code lang =
     map (applyCodeBg options) (originalHighlight code lang)"

section \<open>A renderer instance and \<^verbatim>\<open>patchMarkdownInstance\<close>\<close>

text \<open>
  The fields of a \<^verbatim>\<open>Markdown\<close> instance that the patch reads and writes: the text, the
  theme, and the four properties the patch keeps on the instance. A flag that was never
  assigned is \<^verbatim>\<open>undefined\<close>, which the source only tests for truth: it is \<open>False\<close>
  here. Three counters record what ran: the calls of \<^verbatim>\<open>invalidate\<close>, the calls of
  \<^verbatim>\<open>stripOuterMarkdownFence\<close> made while rendering, and the installations of the
  wrapped theme functions.
\<close>

record md_instance =
  mdText :: jstring
  mdTheme :: "theme option"
  paddingX :: "int option"
  piCommonmarkRevisionApplied :: "nat option"
  piCommonmarkUnwrapped :: bool
  piCommonmarkThemePatched :: bool
  piCommonmarkThemeOriginals :: "theme_originals option"
  piCommonmarkContentWidth :: "int option"
  invalidations :: nat
  unwrapRuns :: nat
  themeWrapRuns :: nat

definition invalidate :: "md_instance \<Rightarrow> md_instance" where
  "invalidate i = i\<lparr>invalidations := invalidations i + 1\<rparr>"

text \<open>The revision test and the reset of the two flags (lines 146 to 152).\<close>

definition applyRevision :: "patch_state \<Rightarrow> md_instance \<Rightarrow> md_instance" where
  "applyRevision state i =
     (if piCommonmarkRevisionApplied i \<noteq> Some (revision state) then
        invalidate (i\<lparr>piCommonmarkRevisionApplied := Some (revision state),
                      piCommonmarkUnwrapped := False,
                      piCommonmarkThemePatched := False\<rparr>)
      else i)"

text \<open>The unwrapping of the outer fence, once per instance (lines 154 to 164).\<close>

definition unwrapOnce :: "options \<Rightarrow> md_instance \<Rightarrow> md_instance" where
  "unwrapOnce options i =
     (if unwrapOuterMarkdownFence options \<and> \<not> piCommonmarkUnwrapped i then
        let i1 = i\<lparr>piCommonmarkUnwrapped := True, unwrapRuns := unwrapRuns i + 1\<rparr>;
            originalText = mdText i1;
            unwrapped = stripOuterMarkdownFence originalText
        in if unwrapped \<noteq> originalText then invalidate (i1\<lparr>mdText := unwrapped\<rparr>) else i1
      else i)"

definition captureOriginals :: "theme \<Rightarrow> theme_originals" where
  "captureOriginals th =
     \<lparr>orig_codeBlock = codeBlock th, orig_codeBlockBorder = codeBlockBorder th,
      orig_highlightCode = highlightCode th, orig_codeBlockIndent = theme_codeBlockIndent th\<rparr>"

text \<open>
  The indent of the theme (lines 188 to 193). \<^verbatim>\<open>options.codeBlockIndent\<close> is a string,
  so the two fallbacks behind \<^verbatim>\<open>??\<close> are never taken.
\<close>

definition themeIndent :: "options \<Rightarrow> jstring" where
  "themeIndent options =
     (let baseIndent = codeBlockIndent options in
      if truthy (codeBlockBgAnsi options) \<and> baseIndent \<noteq> []
      then the (codeBlockBgAnsi options) @ baseIndent else baseIndent)"

text \<open>
  The installation of the wrapped functions (lines 200 to 250): each is built from the
  captured original, never from the function the theme holds at that moment. The
  wrappers read \<^verbatim>\<open>options\<close> and \<^verbatim>\<open>theme.codeBlockIndent\<close> when they are called; both
  only change together with the revision, which installs the wrappers again, so the
  values of the installation are the values of the call. The theme is a value of the
  instance here: one theme object shared by several instances is outside this model.
\<close>

definition installWrappers :: "options \<Rightarrow> theme_originals \<Rightarrow> theme \<Rightarrow> theme" where
  "installWrappers options originals th =
     th\<lparr>codeBlock := codeBlock_wrapper options (orig_codeBlock originals),
        highlightCode := map_option (highlightCode_wrapper options) (orig_highlightCode originals),
        codeBlockBorder :=
          codeBlockBorder_wrapper options (theme_codeBlockIndent th) (orig_codeBlockBorder originals)\<rparr>"

definition patchTheme :: "options \<Rightarrow> md_instance \<Rightarrow> md_instance" where
  "patchTheme options i =
     (case mdTheme i of
        None \<Rightarrow> i
      | Some th \<Rightarrow>
          let originals =
                (case piCommonmarkThemeOriginals i of
                   None \<Rightarrow> captureOriginals th | Some originals \<Rightarrow> originals);
              i1 = i\<lparr>piCommonmarkThemeOriginals := Some originals\<rparr>;
              th1 = th\<lparr>theme_codeBlockIndent := Some (themeIndent options)\<rparr>
          in if piCommonmarkThemePatched i1 then i1\<lparr>mdTheme := Some th1\<rparr>
             else invalidate
                    (i1\<lparr>piCommonmarkThemePatched := True,
                        mdTheme := Some (installWrappers options originals th1),
                        themeWrapRuns := themeWrapRuns i1 + 1\<rparr>))"

definition patchMarkdownInstance :: "md_instance \<Rightarrow> patch_state \<Rightarrow> md_instance" where
  "patchMarkdownInstance i state =
     (let options = opts state in
      if \<not> enabled options then i
      else patchTheme options (unwrapOnce options (applyRevision state i)))"

section \<open>The patched methods\<close>

text \<open>
  \<^verbatim>\<open>applyTuiMarkdownPatchOnce\<close> raises the revision and replaces four methods of the
  prototype; the replacements are the functions of this section, which take the state and
  the methods they delegate to as arguments.
\<close>

definition applyTuiMarkdownPatchOnce :: "patch_state \<Rightarrow> patch_state" where
  "applyTuiMarkdownPatchOnce state = state\<lparr>revision := revision state + 1\<rparr>"

text \<open>
  The patched \<^verbatim>\<open>render\<close>: it stores the content width, prepares the instance and
  delegates to the host's own \<^verbatim>\<open>render\<close>, here \<open>original_render\<close>.
\<close>

definition render_patched ::
  "patch_state \<Rightarrow> (md_instance \<Rightarrow> int \<Rightarrow> jstring list) \<Rightarrow> md_instance \<Rightarrow> int \<Rightarrow>
   jstring list \<times> md_instance" where
  "render_patched state original_render i width =
     (let px = (case paddingX i of None \<Rightarrow> 0 | Some p \<Rightarrow> p);
          i1 = i\<lparr>piCommonmarkContentWidth := Some (max 1 (width - px * 2))\<rparr>;
          i2 = patchMarkdownInstance i1 state
      in (original_render i2 width, i2))"

text \<open>
  Modelled from the spec: the host's own \<^verbatim>\<open>setText\<close> is not part of the sources; it is
  the content assignment of the instance, which stores the text and clears the render
  cache.
\<close>

definition original_setText :: "jstring \<Rightarrow> md_instance \<Rightarrow> md_instance" where
  "original_setText t i = invalidate (i\<lparr>mdText := t\<rparr>)"

definition setText_patched :: "patch_state \<Rightarrow> jstring \<Rightarrow> md_instance \<Rightarrow> md_instance" where
  "setText_patched state t i =
     (let options = opts state;
          nextText = (if enabled options \<and> unwrapOuterMarkdownFence options
                      then stripOuterMarkdownFence t else t)
      in original_setText nextText (i\<lparr>piCommonmarkUnwrapped := False\<rparr>))"

text \<open>
  The fields of a token of the tokenizer that the patch reads. The inline children are
  kept abstract: they are only handed to the host's \<^verbatim>\<open>renderInlineTokens\<close>.
\<close>

record 'i token =
  ttype :: jstring
  depth :: int
  tokens :: "'i list option"
  ttext :: "jstring option"

definition repeat :: "jstring \<Rightarrow> int \<Rightarrow> jstring" where
  "repeat s n = concat (replicate (nat n) s)"

text \<open>
  The patched \<^verbatim>\<open>renderToken\<close>. \<open>th\<close> is the theme of the instance, which the host gives
  every instance; \<open>token\<close> is \<open>None\<close> for an undefined token.
\<close>

definition renderToken_patched ::
  "options \<Rightarrow> theme \<Rightarrow> ('i list \<Rightarrow> jstring) \<Rightarrow>
   ('i token option \<Rightarrow> int \<Rightarrow> jstring option \<Rightarrow> jstring list) \<Rightarrow>
   'i token option \<Rightarrow> int \<Rightarrow> jstring option \<Rightarrow> jstring list" where
  "renderToken_patched options th renderInlineTokens original_renderToken token width nextTokenType =
     (if \<not> enabled options \<or> \<not> stripHeadingPrefixes options \<or>
         map_option ttype token \<noteq> Some (cu ''heading'')
      then original_renderToken token width nextTokenType
      else
        let headingLevel = depth (the token);
            headingText = renderInlineTokens (case tokens (the token) of None \<Rightarrow> [] | Some ts \<Rightarrow> ts);
            styledHeading =
              (if headingLevel = 1 then heading th (bold th (underline th headingText))
               else if headingLevel = 2 then heading th (bold th headingText)
               else
                 let indent = repeat [SPACE, SPACE] (max 0 (headingLevel - 3))
                 in heading th (bold th (indent @ headingText)))
        in [styledHeading] @ (if nextTokenType \<noteq> Some (cu ''space'') then [[]] else []))"

text \<open>
  The patched \<^verbatim>\<open>renderListItem\<close>. The loop over the child tokens is a recursion on the
  tokens still to render, with the lines pushed so far.
\<close>

definition textLine :: "('i list \<Rightarrow> jstring) \<Rightarrow> 'i token \<Rightarrow> jstring" where
  "textLine renderInlineTokens token =
     (case tokens token of
        Some ts \<Rightarrow> if length ts > 0 then renderInlineTokens ts
                   else (case ttext token of None \<Rightarrow> [] | Some t \<Rightarrow> t)
      | None \<Rightarrow> (case ttext token of None \<Rightarrow> [] | Some t \<Rightarrow> t))"

fun renderListItem_loop ::
  "('i token \<Rightarrow> int \<Rightarrow> jstring list) \<Rightarrow> ('i list \<Rightarrow> jstring) \<Rightarrow>
   ('i token option \<Rightarrow> int \<Rightarrow> jstring option \<Rightarrow> jstring list) \<Rightarrow>
   int \<Rightarrow> int \<Rightarrow> jstring list \<Rightarrow> 'i token list \<Rightarrow> jstring list" where
  "renderListItem_loop renderList renderInlineTokens renderToken parentDepth blockWidth lines [] = lines"
| "renderListItem_loop renderList renderInlineTokens renderToken parentDepth blockWidth lines
     (token # rest) =
     (let nextType = (case rest of [] \<Rightarrow> None | n # _ \<Rightarrow> Some (ttype n)) in
      if ttype token = cu ''list'' then
        renderListItem_loop renderList renderInlineTokens renderToken parentDepth blockWidth
          (lines @ renderList token (parentDepth + 1)) rest
      else if ttype token = cu ''text'' then
        renderListItem_loop renderList renderInlineTokens renderToken parentDepth blockWidth
          (lines @ [textLine renderInlineTokens token]) rest
      else if ttype token = cu ''paragraph'' then
        renderListItem_loop renderList renderInlineTokens renderToken parentDepth blockWidth
          (lines @ [renderInlineTokens (case tokens token of None \<Rightarrow> [] | Some ts \<Rightarrow> ts)]) rest
      else
        renderListItem_loop renderList renderInlineTokens renderToken parentDepth blockWidth
          (lines @ renderToken (Some token) blockWidth nextType) rest)"

definition renderListItem_patched ::
  "options \<Rightarrow> int option \<Rightarrow> ('i token \<Rightarrow> int \<Rightarrow> jstring list) \<Rightarrow> ('i list \<Rightarrow> jstring) \<Rightarrow>
   ('i token option \<Rightarrow> int \<Rightarrow> jstring option \<Rightarrow> jstring list) \<Rightarrow>
   ('i token list \<Rightarrow> int \<Rightarrow> jstring list) \<Rightarrow> 'i token list \<Rightarrow> int \<Rightarrow> jstring list" where
  "renderListItem_patched options contentWidth renderList renderInlineTokens renderToken
     original_renderListItem toks parentDepth =
     (if \<not> enabled options then original_renderListItem toks parentDepth
      else
        let fullWidth = (case contentWidth of None \<Rightarrow> 80 | Some w \<Rightarrow> w);
            continuationPrefix = 2 * parentDepth + 2;
            blockWidth = max 20 (fullWidth - continuationPrefix)
        in renderListItem_loop renderList renderInlineTokens renderToken parentDepth blockWidth [] toks)"

section \<open>Print mode: \<^verbatim>\<open>renderMarkdownToTerminal\<close>\<close>

text \<open>
  The loop that pops the blank lines at the end of the array.
\<close>

function dropTrailingBlank :: "jstring list \<Rightarrow> jstring list" where
  "dropTrailingBlank lines =
     (if length lines > 0 \<and> last lines = [] then dropTrailingBlank (butlast lines) else lines)"
  by pat_completeness auto
termination
  by (relation "measure length") auto

declare dropTrailingBlank.simps [simp del]

fun join :: "jstring \<Rightarrow> jstring list \<Rightarrow> jstring" where
  "join sep [] = []"
| "join sep [l] = l"
| "join sep (l # m # ls) = l @ sep @ join sep (m # ls)"

text \<open>
  \<open>md_render markdown theme width\<close> stands for the host's
  \<^verbatim>\<open>new Markdown(markdown, 0, 0, theme).render(width)\<close>.
\<close>

definition renderMarkdownToTerminal ::
  "(jstring \<Rightarrow> 'theme \<Rightarrow> int \<Rightarrow> jstring list) \<Rightarrow> jstring \<Rightarrow> int \<Rightarrow> 'theme \<Rightarrow> jstring" where
  "renderMarkdownToTerminal md_render markdown width th =
     (let lines = map trimEnd (md_render markdown th width)
      in join [LF] (dropTrailingBlank lines))"

section \<open>Configuration values\<close>

text \<open>
  A value of unknown type, as the flags and the persisted record give it. A number is a
  finite real or one of the three values that are not finite.
\<close>

datatype jsnumber = Finite real | NaN | PosInfinity | NegInfinity

datatype jsvalue = JUndefined | JBoolean bool | JNumber jsnumber | JString jstring

definition mathTrunc :: "real \<Rightarrow> int" where
  "mathTrunc x = (if x \<ge> 0 then \<lfloor>x\<rfloor> else \<lceil>x\<rceil>)"

definition is_digit :: "nat \<Rightarrow> bool" where
  "is_digit c \<longleftrightarrow> 48 \<le> c \<and> c \<le> 57"

definition digitsValue :: "jstring \<Rightarrow> int" where
  "digitsValue ds = foldl (\<lambda>a d. 10 * a + int (d - 48)) 0 ds"

text \<open>
  \<^verbatim>\<open>Number.parseInt(value, 10)\<close>: leading white space is skipped, a sign is read, then
  the longest run of decimal digits; without a digit the result is \<^verbatim>\<open>NaN\<close>, here
  \<open>None\<close>.
\<close>

definition parseInt10 :: "jstring \<Rightarrow> int option" where
  "parseInt10 s =
     (let t = trimStart s;
          sign = (if t \<noteq> [] \<and> hd t = 45 then - 1 else 1);
          r = (if t \<noteq> [] \<and> (hd t = 45 \<or> hd t = 43) then tl t else t);
          z = takeWhile is_digit r
      in if z = [] then None else Some (sign * digitsValue z))"

text \<open>
  An integer of this size or more is read as an infinity, which is not finite. Below it
  and above \<open>2 ^ 53\<close> the number read is the nearest double; the model keeps the integer
  itself, which every caller bounds from above by 8.
\<close>

definition doubleLimit :: int where
  "doubleLimit = 2 ^ 1024 - 2 ^ 970"

definition toInt :: "jsvalue \<Rightarrow> int option" where
  "toInt v =
     (case v of
        JNumber (Finite x) \<Rightarrow> Some (mathTrunc x)
      | JString s \<Rightarrow>
          (case parseInt10 s of
             None \<Rightarrow> None
           | Some n \<Rightarrow> if \<bar>n\<bar> < doubleLimit then Some n else None)
      | _ \<Rightarrow> None)"

definition clampSpaces :: "int \<Rightarrow> nat" where
  "clampSpaces n = nat (max 0 (min 8 n))"

definition parseIndentSpaces :: "jsvalue \<Rightarrow> nat \<Rightarrow> jstring" where
  "parseIndentSpaces v defaultSpaces =
     (let spaces = (case toInt v of None \<Rightarrow> defaultSpaces | Some n \<Rightarrow> clampSpaces n)
      in replicate spaces SPACE)"

text \<open>
  \<^verbatim>\<open>toLowerCase\<close> on the units of ASCII; no unit outside ASCII has a lower case among
  the letters of the words compared below.
\<close>

definition toLowerCase :: "jstring \<Rightarrow> jstring" where
  "toLowerCase s = map (\<lambda>c. if 65 \<le> c \<and> c \<le> 90 then c + 32 else c) s"

definition parseOnOff :: "jsvalue \<Rightarrow> bool \<Rightarrow> bool" where
  "parseOnOff v defaultValue =
     (case v of
        JBoolean b \<Rightarrow> b
      | JString s \<Rightarrow>
          (let w = toLowerCase (trim s) in
           if w \<in> set (map cu [''1'', ''true'', ''on'', ''yes'', ''y'']) then True
           else if w \<in> set (map cu [''0'', ''false'', ''off'', ''no'', ''n'']) then False
           else defaultValue)
      | _ \<Rightarrow> defaultValue)"

definition normalizeBgKey :: "jsvalue \<Rightarrow> jstring option" where
  "normalizeBgKey v =
     (case v of
        JString s \<Rightarrow>
          (let t = trim s; lower = toLowerCase t in
           if t = [] then None
           else if lower \<in> set (map cu [''off'', ''none'', ''0'', ''false'']) then None
           else Some t)
      | _ \<Rightarrow> None)"

section \<open>The live-edit command\<close>

text \<open>
  What a handler does beyond changing the patch state is returned as a list of effects, in
  the order of the calls: a notification, the snapshot appended to the session, the
  redraw requested through \<^verbatim>\<open>setTheme\<close>, the opening of the settings list.
\<close>

datatype level = Info | Warning

record persisted_tui =
  p_unwrapOuterMarkdownFence :: bool
  p_hideCodeFences :: bool
  p_showCodeFenceLanguageLabel :: bool
  p_stripHeadingPrefixes :: bool
  p_codeBlockBgKey :: jstring
  p_codeIndentSpaces :: nat

datatype effect = Notify jstring level | AppendEntry persisted_tui | SetTheme jstring | OpenSettingsUi

text \<open>
  The context of a handler: whether there is a user interface, the name of the active
  theme when it is a string, and the theme's lookup of a background key, which throws for
  a key it does not know (\<open>None\<close>).
\<close>

record command_ctx =
  hasUI :: bool
  themeName :: "jstring option"
  getBgAnsi :: "jstring \<Rightarrow> jstring option"

definition persistTuiSettings :: "options \<Rightarrow> effect list" where
  "persistTuiSettings options =
     [AppendEntry
        \<lparr>p_unwrapOuterMarkdownFence = unwrapOuterMarkdownFence options,
         p_hideCodeFences = hideCodeFences options,
         p_showCodeFenceLanguageLabel = showCodeFenceLanguageLabel options,
         p_stripHeadingPrefixes = stripHeadingPrefixes options,
         p_codeBlockBgKey = (case codeBlockBgKey options of None \<Rightarrow> cu ''off'' | Some k \<Rightarrow> k),
         p_codeIndentSpaces = length (codeBlockIndent options)\<rparr>]"

definition refreshTui :: "command_ctx \<Rightarrow> effect list" where
  "refreshTui ctx =
     (if \<not> hasUI ctx then []
      else (case themeName ctx of
              Some name \<Rightarrow> if trim name \<noteq> [] then [SetTheme name] else [SetTheme (cu ''dark'')]
            | None \<Rightarrow> [SetTheme (cu ''dark'')]))"

definition commit :: "command_ctx \<Rightarrow> patch_state \<Rightarrow> patch_state \<times> effect list" where
  "commit ctx state =
     (let state1 = state\<lparr>revision := revision state + 1\<rparr>
      in (state1, persistTuiSettings (opts state1) @ refreshTui ctx))"

definition recomputeBgAnsi :: "command_ctx \<Rightarrow> options \<Rightarrow> options" where
  "recomputeBgAnsi ctx options =
     (let o1 = options\<lparr>codeBlockBgAnsi := None\<rparr> in
      if \<not> truthy (codeBlockBgKey o1) then o1
      else (case getBgAnsi ctx (the (codeBlockBgKey o1)) of
              Some ansi \<Rightarrow> o1\<lparr>codeBlockBgAnsi := Some ansi\<rparr>
            | None \<Rightarrow> o1\<lparr>codeBlockBgAnsi := None, codeBlockBgKey := None\<rparr>))"

text \<open>\<^verbatim>\<open>split(/\s+/)\<close>: the pieces between the maximal runs of white space.\<close>

function split_ws :: "jstring \<Rightarrow> jstring \<Rightarrow> jstring list" where
  "split_ws cur [] = [cur]"
| "split_ws cur (c # cs) =
     (if is_space c then cur # split_ws [] (dropWhile is_space cs) else split_ws (cur @ [c]) cs)"
  by pat_completeness auto
termination
  by (relation "measure (\<lambda>(cur, rest). length rest)")
     (auto simp: le_imp_less_Suc length_dropWhile_le)

definition commandParts :: "jstring \<Rightarrow> jstring list" where
  "commandParts args = filter (\<lambda>part. part \<noteq> []) (split_ws [] (trim args))"

function decimal :: "nat \<Rightarrow> jstring" where
  "decimal n = (if n < 10 then [48 + n] else decimal (n div 10) @ [48 + n mod 10])"
  by pat_completeness auto
termination
  by (relation "measure id") auto

declare decimal.simps [simp del]

definition onOff :: "bool \<Rightarrow> jstring" where
  "onOff b = (if b then cu ''on'' else cu ''off'')"

definition statusMessage :: "options \<Rightarrow> jstring" where
  "statusMessage options =
     cu ''render-md: '' @
     join [32, 8226, 32]
       [cu ''enabled='' @ onOff (enabled options),
        cu ''unfence='' @ onOff (unwrapOuterMarkdownFence options),
        cu ''hide-fences='' @ onOff (hideCodeFences options),
        cu ''code-label='' @ onOff (showCodeFenceLanguageLabel options),
        cu ''heading-prefix='' @ (if stripHeadingPrefixes options then cu ''hide'' else cu ''show''),
        cu ''code-bg='' @ (case codeBlockBgKey options of None \<Rightarrow> cu ''off'' | Some k \<Rightarrow> k),
        cu ''code-indent='' @ decimal (length (codeBlockIndent options))]"

text \<open>
  One branch of the command for each boolean option: without a value the usage is shown;
  with one, the option is set, reported and committed.
\<close>

definition onOffCommand ::
  "command_ctx \<Rightarrow> jstring option \<Rightarrow> jstring \<Rightarrow> jstring \<Rightarrow> (options \<Rightarrow> bool) \<Rightarrow>
   (bool \<Rightarrow> options \<Rightarrow> options) \<Rightarrow> patch_state \<Rightarrow> patch_state \<times> effect list" where
  "onOffCommand ctx v usage report field assign state =
     (case v of
        None \<Rightarrow> (state, [Notify usage Info])
      | Some w \<Rightarrow>
          let b = parseOnOff (JString w) (field (opts state));
              state1 = state\<lparr>opts := assign b (opts state)\<rparr>;
              (state2, effects) = commit ctx state1
          in (state2, Notify (report @ onOff b) Info # effects))"

definition indentCommand ::
  "command_ctx \<Rightarrow> jstring option \<Rightarrow> patch_state \<Rightarrow> patch_state \<times> effect list" where
  "indentCommand ctx v state =
     (case v of
        None \<Rightarrow> (state, [Notify (cu ''Usage: /render-md indent <0..8>'') Info])
      | Some w \<Rightarrow>
          (case toInt (JString w) of
             None \<Rightarrow> (state, [Notify (cu ''render-md: indent must be a number 0..8'') Warning])
           | Some n \<Rightarrow>
               let spaces = clampSpaces n;
                   state1 = state\<lparr>opts := (opts state)\<lparr>codeBlockIndent := replicate spaces SPACE\<rparr>\<rparr>;
                   (state2, effects) = commit ctx state1
               in (state2, Notify (cu ''render-md: code indent = '' @ decimal spaces) Info # effects)))"

definition bgCommand ::
  "command_ctx \<Rightarrow> jstring option \<Rightarrow> patch_state \<Rightarrow> patch_state \<times> effect list" where
  "bgCommand ctx v state =
     (case v of
        None \<Rightarrow>
          (state,
           [Notify (cu ''Usage: /render-md bg off|selectedBg|toolPendingBg|customMessageBg|userMessageBg'') Info])
      | Some w \<Rightarrow>
          let o1 = recomputeBgAnsi ctx ((opts state)\<lparr>codeBlockBgKey := normalizeBgKey (JString w)\<rparr>);
              state1 = state\<lparr>opts := o1\<rparr>;
              (state2, effects) = commit ctx state1
          in (state2,
              Notify (cu ''render-md: code background '' @
                      (case codeBlockBgKey o1 of None \<Rightarrow> cu ''off'' | Some k \<Rightarrow> k)) Info # effects))"

definition renderMdCommandHandler ::
  "command_ctx \<Rightarrow> jstring \<Rightarrow> patch_state \<Rightarrow> patch_state \<times> effect list" where
  "renderMdCommandHandler ctx args state0 =
     (if \<not> hasUI ctx then
        (state0, [Notify (cu ''render-md: TUI settings only available in interactive mode'') Info])
      else
        let state = applyTuiMarkdownPatchOnce state0;
            parts = commandParts args;
            cmd = (if parts = [] then None else Some (parts ! 0));
            v = (if length parts > 1 then Some (parts ! 1) else None)
        in
        if cmd = None \<or> cmd = Some (cu ''ui'') \<or> cmd = Some (cu ''menu'') then (state, [OpenSettingsUi])
        else if cmd = Some (cu ''status'') then (state, [Notify (statusMessage (opts state)) Info])
        else if cmd = Some (cu ''label'') then
          onOffCommand ctx v (cu ''Usage: /render-md label on|off'') (cu ''render-md: code label '')
            showCodeFenceLanguageLabel (\<lambda>b o'. o'\<lparr>showCodeFenceLanguageLabel := b\<rparr>) state
        else if cmd = Some (cu ''hide-fences'') then
          onOffCommand ctx v (cu ''Usage: /render-md hide-fences on|off'') (cu ''render-md: hide-fences '')
            hideCodeFences (\<lambda>b o'. o'\<lparr>hideCodeFences := b\<rparr>) state
        else if cmd = Some (cu ''bg'') then bgCommand ctx v state
        else if cmd = Some (cu ''indent'') then indentCommand ctx v state
        else if cmd = Some (cu ''headings'') then
          onOffCommand ctx v (cu ''Usage: /render-md headings on|off'')
            (cu ''render-md: hide heading prefixes '')
            stripHeadingPrefixes (\<lambda>b o'. o'\<lparr>stripHeadingPrefixes := b\<rparr>) state
        else if cmd = Some (cu ''unfence'') then
          onOffCommand ctx v (cu ''Usage: /render-md unfence on|off'')
            (cu ''render-md: unwrap outer markdown fence '')
            unwrapOuterMarkdownFence (\<lambda>b o'. o'\<lparr>unwrapOuterMarkdownFence := b\<rparr>) state
        else
          (state,
           [Notify (cu ''Unknown subcommand. Try: /render-md | status | label | hide-fences | bg | indent | headings | unfence'') Info]))"




section \<open>The plain theme of print mode\<close>

text \<open>\<^verbatim>\<open>code.split("\n")\<close>: the pieces between the line feeds.\<close>

fun splitLines_from :: "jstring \<Rightarrow> jstring \<Rightarrow> jstring list" where
  "splitLines_from cur [] = [cur]"
| "splitLines_from cur (c # cs) =
     (if c = LF then cur # splitLines_from [] cs else splitLines_from (cur @ [c]) cs)"

definition splitLines :: "jstring \<Rightarrow> jstring list" where
  "splitLines s = splitLines_from [] s"

definition createPlainMarkdownTheme :: "bool option \<Rightarrow> theme" where
  "createPlainMarkdownTheme hideOption =
     (let hide = (case hideOption of None \<Rightarrow> True | Some h \<Rightarrow> h) in
      \<lparr>heading = (\<lambda>t. t), bold = (\<lambda>t. t), underline = (\<lambda>t. t), codeBlock = (\<lambda>t. t),
       codeBlockBorder = (\<lambda>t. if hide \<and> startsWith t fence3 then [] else t),
       highlightCode = Some (\<lambda>code lang. splitLines code),
       theme_codeBlockIndent = None\<rparr>)"

section \<open>The properties, in the words of the specification\<close>

text \<open>
  The styled line of a heading of depth \<open>d\<close> with rendered text \<open>txt\<close>: bold and
  underlined at depth 1, bold at depth 2, bold behind \<open>2 * (d - 3)\<close> spaces otherwise.
\<close>

definition spec_headingLine :: "theme \<Rightarrow> int \<Rightarrow> jstring \<Rightarrow> jstring" where
  "spec_headingLine th d txt =
     (if d = 1 then heading th (bold th (underline th txt))
      else if d = 2 then heading th (bold th txt)
      else heading th (bold th (replicate (nat (2 * (d - 3))) SPACE @ txt)))"

definition HASH :: nat where "HASH = 35"

text \<open>A style function that puts no hash sign into a text that has none.\<close>

definition hash_free_style :: "(jstring \<Rightarrow> jstring) \<Rightarrow> bool" where
  "hash_free_style f \<longleftrightarrow> (\<forall>s. HASH \<notin> set s \<longrightarrow> HASH \<notin> set (f s))"

text \<open>
  The lines of one child token of a list item, given the type of the token behind it:
  the four cases of the specification.
\<close>

definition spec_itemLines ::
  "('i token \<Rightarrow> int \<Rightarrow> jstring list) \<Rightarrow> ('i list \<Rightarrow> jstring) \<Rightarrow>
   ('i token option \<Rightarrow> int \<Rightarrow> jstring option \<Rightarrow> jstring list) \<Rightarrow>
   int \<Rightarrow> int \<Rightarrow> 'i token \<Rightarrow> jstring option \<Rightarrow> jstring list" where
  "spec_itemLines renderList renderInlineTokens renderToken parentDepth blockWidth token nextType =
     (if ttype token = cu ''list'' then renderList token (parentDepth + 1)
      else if ttype token = cu ''text'' then
        [if tokens token = None \<or> tokens token = Some []
         then (case ttext token of None \<Rightarrow> [] | Some t \<Rightarrow> t)
         else renderInlineTokens (the (tokens token))]
      else if ttype token = cu ''paragraph'' then
        [renderInlineTokens (case tokens token of None \<Rightarrow> [] | Some ts \<Rightarrow> ts)]
      else renderToken (Some token) blockWidth nextType)"

text \<open>For each token of a list, the type of the token behind it.\<close>

fun nextTypes :: "'i token list \<Rightarrow> jstring option list" where
  "nextTypes [] = []"
| "nextTypes [t] = [None]"
| "nextTypes (t # n # ts) = Some (ttype n) # nextTypes (n # ts)"

definition spec_blockWidth :: "int option \<Rightarrow> int \<Rightarrow> int" where
  "spec_blockWidth contentWidth parentDepth =
     max 20 ((case contentWidth of None \<Rightarrow> 80 | Some w \<Rightarrow> w) - (2 * parentDepth + 2))"

definition no_trailing_space :: "jstring \<Rightarrow> bool" where
  "no_trailing_space l \<longleftrightarrow> l = [] \<or> \<not> is_space (last l)"






text \<open>
  The pattern of the outer fence. A line break is a line feed, alone or behind a carriage
  return; a keyword is \<^verbatim>\<open>markdown\<close> or \<^verbatim>\<open>md\<close> in any case of its letters.
\<close>

definition all_space :: "jstring \<Rightarrow> bool" where
  "all_space w \<longleftrightarrow> (\<forall>c\<in>set w. is_space c)"

definition is_keyword :: "jstring \<Rightarrow> bool" where
  "is_keyword kw \<longleftrightarrow>
     map canonicalize kw = map canonicalize (cu ''markdown'') \<or>
     map canonicalize kw = map canonicalize (cu ''md'')"

definition line_break :: "jstring \<Rightarrow> bool" where
  "line_break lb \<longleftrightarrow> lb = [LF] \<or> lb = [CR, LF]"

text \<open>
  The pattern in the words of the specification: three backticks, optional white space,
  the keyword, a line break, the content, a line break, three backticks, optional white
  space.
\<close>

definition spec_outer_fence :: "jstring \<Rightarrow> jstring \<Rightarrow> bool" where
  "spec_outer_fence t inner \<longleftrightarrow>
     (\<exists>ws1 kw lb1 lb2 ws3.
        t = fence3 @ ws1 @ kw @ lb1 @ inner @ lb2 @ fence3 @ ws3 \<and>
        all_space ws1 \<and> is_keyword kw \<and> line_break lb1 \<and> line_break lb2 \<and> all_space ws3)"



text \<open>
  A content whose first line is blank: it holds a line feed, and only white space before
  its first line feed.
\<close>

definition blank_first_line :: "jstring \<Rightarrow> bool" where
  "blank_first_line inner \<longleftrightarrow> LF \<in> set inner \<and> all_space (takeWhile (\<lambda>c. c \<noteq> LF) inner)"

text \<open>
  The line that \<^verbatim>\<open>applyCodeBg\<close> puts behind the background introducer: the value of
  \<^verbatim>\<open>stable\<close> in the source.
\<close>

definition stableBg :: "jstring \<Rightarrow> jstring \<Rightarrow> jstring" where
  "stableBg bg s = replaceAll reset49 bg (replaceAll reset0 (reset0 @ bg) s)"

text \<open>
  The background introducer is documented as the ANSI prefix of the background of a code
  block, no reset (line 51), and is only ever assigned what the theme's
  \<^verbatim>\<open>getBgAnsi\<close> returned for the background key. Such a prefix is one control
  sequence: the escape character, then units other than the escape character, the dollar
  sign and the letter m (109), then a final m. The sequences that select a graphic
  rendition have this form.
\<close>

definition single_escape_sequence :: "jstring \<Rightarrow> bool" where
  "single_escape_sequence bg \<longleftrightarrow>
     (case bg of
        [] \<Rightarrow> False
      | c # b \<Rightarrow> c = ESC \<and> b \<noteq> [] \<and> last b = 109 \<and>
                 (\<forall>x\<in>set (butlast b). x \<noteq> ESC \<and> x \<noteq> DOLLAR \<and> x \<noteq> 109))"

text \<open>\<open>p\<close> occurs in \<open>xs\<close>; and: what follows each occurrence of \<open>p\<close> in \<open>xs\<close> satisfies \<open>Q\<close>.\<close>

definition occurs :: "jstring \<Rightarrow> jstring \<Rightarrow> bool" where
  "occurs p xs \<longleftrightarrow> (\<exists>u v. xs = u @ p @ v)"

definition each_occurrence :: "jstring \<Rightarrow> (jstring \<Rightarrow> bool) \<Rightarrow> jstring \<Rightarrow> bool" where
  "each_occurrence p Q xs \<longleftrightarrow> (\<forall>u v. xs = u @ p @ v \<longrightarrow> Q v)"

text \<open>The two resets behind their escape character, and a text that ends at its first m.\<close>

definition tail0 :: jstring where "tail0 = cu ''[0m''"

definition tail49 :: jstring where "tail49 = cu ''[49m''"

definition m_terminated :: "jstring \<Rightarrow> bool" where
  "m_terminated t \<longleftrightarrow> t \<noteq> [] \<and> last t = 109 \<and> 109 \<notin> set (butlast t)"

text \<open>Concrete values for the examples: a context with a user interface, a fresh instance, a background of the 256 colours.\<close>

definition ui_ctx :: command_ctx where
  "ui_ctx = \<lparr>hasUI = True, themeName = None, getBgAnsi = (\<lambda>k. None)\<rparr>"

definition fresh_instance :: "jstring \<Rightarrow> md_instance" where
  "fresh_instance t =
     \<lparr>mdText = t, mdTheme = Some (createPlainMarkdownTheme None), paddingX = Some 0,
      piCommonmarkRevisionApplied = None, piCommonmarkUnwrapped = False,
      piCommonmarkThemePatched = False, piCommonmarkThemeOriginals = None,
      piCommonmarkContentWidth = None, invalidations = 0, unwrapRuns = 0, themeWrapRuns = 0\<rparr>"

definition bg236 :: jstring where
  "bg236 = ESC # cu ''[48;5;236m''"

section \<open>Evaluation of the definitions on concrete strings\<close>

lemma cu_Nil: "cu [] = []"
  by (simp add: cu_def)

lemma cu_Cons: "cu (c # s) = of_char c # cu s"
  by (simp add: cu_def)

lemmas char_defs = ESC_def LF_def CR_def SPACE_def BACKTICK_def DOLLAR_def LAQUO_def RAQUO_def HASH_def

lemmas cu_eval = cu_Nil cu_Cons

lemmas trim_eval = trim_def trimStart_def trimEnd_def is_space_def cu_eval

lemmas fence_eval =
  stripOuterMarkdownFence_def fence_regex_def fence_close_def trim_eval lit_def lit_ci_def alt_def
  eos_def fence3_def BACKTICK_def CR_def LF_def canonicalize_def

section \<open>The border of a code block\<close>

text \<open>
  C3. Fence hiding is in effect when the patch and the option are both on (the guard of
  the wrapper). Then the wrapped \<^verbatim>\<open>codeBlockBorder\<close> maps a line that does not start
  with three backticks to the original border with the background applied; a closing
  fence (nothing but white space behind the backticks) to the background introducer alone
  if a background is set and to the empty string otherwise; an opening fence to the same
  when no label is requested, and otherwise to the background applied to the active indent
  followed by the original border of the language between angle quotes. When fence hiding
  is not in effect, every line goes to the original border with the background applied.
\<close>

theorem codeBlockBorder_wrapper_cases:
  "(\<not> (enabled options \<and> hideCodeFences options) \<longrightarrow>
      codeBlockBorder_wrapper options indent originalBorder t =
        applyCodeBg options (originalBorder t)) \<and>
   (enabled options \<and> hideCodeFences options \<longrightarrow>
      (\<not> startsWith t fence3 \<longrightarrow>
         codeBlockBorder_wrapper options indent originalBorder t =
           applyCodeBg options (originalBorder t)) \<and>
      (startsWith t fence3 \<and> trim (drop 3 t) = [] \<longrightarrow>
         codeBlockBorder_wrapper options indent originalBorder t =
           (if truthy (codeBlockBgAnsi options) then the (codeBlockBgAnsi options) else [])) \<and>
      (startsWith t fence3 \<and> trim (drop 3 t) \<noteq> [] \<and> \<not> showCodeFenceLanguageLabel options \<longrightarrow>
         codeBlockBorder_wrapper options indent originalBorder t =
           (if truthy (codeBlockBgAnsi options) then the (codeBlockBgAnsi options) else [])) \<and>
      (startsWith t fence3 \<and> trim (drop 3 t) \<noteq> [] \<and> showCodeFenceLanguageLabel options \<longrightarrow>
         codeBlockBorder_wrapper options indent originalBorder t =
           applyCodeBg options
             ((case indent of None \<Rightarrow> [SPACE, SPACE] | Some i \<Rightarrow> i) @
              originalBorder ([LAQUO] @ trim (drop 3 t) @ [RAQUO]))))"
  by (simp add: codeBlockBorder_wrapper_def Let_def)

theorem codeBlockBorder_wrapper_cases_witness:
  "codeBlockBorder_wrapper (defaults\<lparr>showCodeFenceLanguageLabel := True\<rparr>) (Some [SPACE, SPACE])
     (\<lambda>t. t) (fence3 @ cu ''ts'') = [SPACE, SPACE, LAQUO] @ cu ''ts'' @ [RAQUO] \<and>
   codeBlockBorder_wrapper defaults None (\<lambda>t. t) fence3 = []"
  using codeBlockBorder_wrapper_cases
          [of "defaults\<lparr>showCodeFenceLanguageLabel := True\<rparr>" "Some [SPACE, SPACE]" "\<lambda>t. t"
              "fence3 @ cu ''ts''"]
        codeBlockBorder_wrapper_cases [of defaults None "\<lambda>t. t" fence3]
  by (simp add: defaults_def startsWith_def fence3_def applyCodeBg_def truthy_def trim_eval)

section \<open>Headings\<close>

lemma repeat_two_spaces: "repeat [SPACE, SPACE] (max 0 n) = replicate (nat (2 * n)) SPACE"
proof -
  have "concat (replicate k [SPACE, SPACE]) = replicate (2 * k) SPACE" for k
    by (induction k) simp_all
  from this [of "nat (max 0 n)"]
  have "repeat [SPACE, SPACE] (max 0 n) = replicate (2 * nat (max 0 n)) SPACE"
    by (simp add: repeat_def)
  moreover have "2 * nat (max 0 n) = nat (2 * n)"
    by (cases "0 \<le> n") (simp_all add: max_def nat_mult_distrib)
  ultimately show ?thesis by simp
qed

lemma spec_headingLine_hash_free:
  assumes "hash_free_style (heading th)" "hash_free_style (bold th)" "hash_free_style (underline th)"
    and "HASH \<notin> set txt"
  shows "HASH \<notin> set (spec_headingLine th d txt)"
proof -
  have sp: "HASH \<notin> set (replicate (nat (2 * (d - 3))) SPACE @ txt)"
    using assms(4) by (auto simp: HASH_def SPACE_def)
  show ?thesis
    using assms sp unfolding spec_headingLine_def hash_free_style_def by auto
qed

text \<open>
  C4. With the patch and heading stripping on, a heading token of depth \<open>d\<close> renders to
  one styled line: bold and underlined for depth 1, bold for depth 2, and bold behind
  \<open>2 * (d - 3)\<close> spaces for the other depths. A blank line follows unless the next token
  is of type \<^verbatim>\<open>space\<close>. No hash sign is added: when the style functions of the theme add
  none and the rendered text of the heading has none, the line has none.
\<close>

theorem renderToken_patched_heading:
  assumes "enabled options" and "stripHeadingPrefixes options" and "ttype tok = cu ''heading''"
  shows "renderToken_patched options th renderInlineTokens original_renderToken (Some tok) width
           nextTokenType =
           spec_headingLine th (depth tok)
             (renderInlineTokens (case tokens tok of None \<Rightarrow> [] | Some ts \<Rightarrow> ts)) #
           (if nextTokenType = Some (cu ''space'') then [] else [[]]) \<and>
         (hash_free_style (heading th) \<and> hash_free_style (bold th) \<and>
          hash_free_style (underline th) \<and>
          HASH \<notin> set (renderInlineTokens (case tokens tok of None \<Rightarrow> [] | Some ts \<Rightarrow> ts)) \<longrightarrow>
          HASH \<notin> set (hd (renderToken_patched options th renderInlineTokens original_renderToken
                             (Some tok) width nextTokenType)))"
proof -
  have r: "renderToken_patched options th renderInlineTokens original_renderToken (Some tok) width
             nextTokenType =
           spec_headingLine th (depth tok)
             (renderInlineTokens (case tokens tok of None \<Rightarrow> [] | Some ts \<Rightarrow> ts)) #
           (if nextTokenType = Some (cu ''space'') then [] else [[]])"
    using assms
    by (simp add: renderToken_patched_def spec_headingLine_def Let_def repeat_two_spaces
        del: mult_minus_right)
  show ?thesis
    by (simp add: r spec_headingLine_hash_free)
qed

lemma hash_free_style_id: "hash_free_style (\<lambda>t. t)"
  by (simp add: hash_free_style_def)

theorem renderToken_patched_heading_witness:
  "renderToken_patched defaults (createPlainMarkdownTheme None) (\<lambda>ts. ts) (\<lambda>t w n. [])
     (Some \<lparr>ttype = cu ''heading'', depth = 4, tokens = Some (cu ''Title''), ttext = None\<rparr>) 80 None =
     [cu ''  Title'', []] \<and>
   renderToken_patched defaults (createPlainMarkdownTheme None) (\<lambda>ts. ts) (\<lambda>t w n. [])
     (Some \<lparr>ttype = cu ''heading'', depth = 1, tokens = Some (cu ''Title''), ttext = None\<rparr>) 80
     (Some (cu ''space'')) =
     [cu ''Title''] \<and>
   HASH \<notin> set (hd (renderToken_patched defaults (createPlainMarkdownTheme None) (\<lambda>ts. ts) (\<lambda>t w n. [])
     (Some \<lparr>ttype = cu ''heading'', depth = 4, tokens = Some (cu ''Title''), ttext = None\<rparr>) 80 None))"
proof -
  let ?th = "createPlainMarkdownTheme None"
  let ?t4 = "\<lparr>ttype = cu ''heading'', depth = 4, tokens = Some (cu ''Title''), ttext = None\<rparr>"
  let ?t1 = "\<lparr>ttype = cu ''heading'', depth = 1, tokens = Some (cu ''Title''), ttext = None\<rparr>"
  have e: "enabled defaults" "stripHeadingPrefixes defaults"
    by (simp_all add: defaults_def)
  have s: "hash_free_style (heading ?th)" "hash_free_style (bold ?th)" "hash_free_style (underline ?th)"
    by (simp_all add: createPlainMarkdownTheme_def hash_free_style_id)
  have h: "HASH \<notin> set (cu ''Title'')"
    by (simp add: HASH_def cu_eval)
  have two: "replicate 2 x = [x, x]" for x :: nat
    by (simp add: numeral_2_eq_2)
  show ?thesis
    using renderToken_patched_heading [OF e, of ?t4 ?th "\<lambda>ts. ts" "\<lambda>t w n. []" 80 None]
      renderToken_patched_heading [OF e, of ?t1 ?th "\<lambda>ts. ts" "\<lambda>t w n. []" 80 "Some (cu ''space'')"]
      s h
    by (simp add: spec_headingLine_def createPlainMarkdownTheme_def two SPACE_def HASH_def cu_eval)
qed

section \<open>List items\<close>

lemma textLine_spec:
  "textLine rit token =
     (if tokens token = None \<or> tokens token = Some []
      then (case ttext token of None \<Rightarrow> [] | Some t \<Rightarrow> t)
      else rit (the (tokens token)))"
  by (cases "tokens token") (auto simp: textLine_def)

lemma renderListItem_loop_spec:
  "renderListItem_loop rl rit rt pd bw lines toks =
     lines @ concat (map2 (spec_itemLines rl rit rt pd bw) toks (nextTypes toks))"
proof (induction toks arbitrary: lines rule: nextTypes.induct)
  case 1
  then show ?case by simp
next
  case (2 t)
  then show ?case by (simp add: spec_itemLines_def textLine_spec)
next
  case (3 t n ts)
  then show ?case by (simp add: spec_itemLines_def textLine_spec)
qed

text \<open>
  C5. With the patch on, \<^verbatim>\<open>renderListItem\<close> returns the lines of its child tokens in
  order, where a nested list is rendered by the list renderer at the parent depth plus
  one, a text token is one line (its literal text without inline children, its rendered
  inline children otherwise), a paragraph is one line (its rendered inline children), and
  every other token goes to the block renderer at the width
  \<open>max 20 (fullContentWidth - (2 * parentDepth + 2))\<close>, with the type of the next token.
\<close>

theorem renderListItem_patched_spec:
  "enabled options \<Longrightarrow>
   renderListItem_patched options contentWidth renderList renderInlineTokens renderToken
     original_renderListItem toks parentDepth =
   concat (map2 (spec_itemLines renderList renderInlineTokens renderToken parentDepth
                   (spec_blockWidth contentWidth parentDepth))
             toks (nextTypes toks))"
  by (simp add: renderListItem_patched_def Let_def renderListItem_loop_spec spec_blockWidth_def)

theorem renderListItem_patched_spec_witness:
  "renderListItem_patched defaults (Some 30) (\<lambda>t d. [cu ''nested'']) (\<lambda>ts. ts)
     (\<lambda>t w n. [decimal (nat w)]) (\<lambda>ts d. [])
     [\<lparr>ttype = cu ''text'', depth = 0, tokens = None, ttext = Some (cu ''item'')\<rparr>,
      \<lparr>ttype = cu ''table'', depth = 0, tokens = None, ttext = None\<rparr>,
      \<lparr>ttype = cu ''list'', depth = 0, tokens = None, ttext = None\<rparr>] 6 =
   [cu ''item'', cu ''20'', cu ''nested'']"
proof -
  have e: "enabled defaults" by (simp add: defaults_def)
  have d: "decimal 20 = cu ''20''"
    by (simp add: decimal.simps [of 20] decimal.simps [of 2] cu_eval)
  show ?thesis
    using renderListItem_patched_spec [OF e, of "Some 30" "\<lambda>t d. [cu ''nested'']" "\<lambda>ts. ts"
        "\<lambda>t w n. [decimal (nat w)]" "\<lambda>ts d. []"
        "[\<lparr>ttype = cu ''text'', depth = 0, tokens = None, ttext = Some (cu ''item'')\<rparr>,
          \<lparr>ttype = cu ''table'', depth = 0, tokens = None, ttext = None\<rparr>,
          \<lparr>ttype = cu ''list'', depth = 0, tokens = None, ttext = None\<rparr>]" 6]
    by (simp add: spec_itemLines_def spec_blockWidth_def d cu_eval)
qed

section \<open>Unwrapping across \<^verbatim>\<open>setText\<close> and \<^verbatim>\<open>render\<close>\<close>

lemma mdText_patchTheme: "mdText (patchTheme options i) = mdText i"
  by (simp add: patchTheme_def Let_def invalidate_def split: option.splits)

lemma mdText_applyRevision: "mdText (applyRevision state i) = mdText i"
  by (simp add: applyRevision_def invalidate_def)

lemma unwrapped_applyRevision:
  "\<not> piCommonmarkUnwrapped i \<Longrightarrow> \<not> piCommonmarkUnwrapped (applyRevision state i)"
  by (simp add: applyRevision_def invalidate_def)

lemma mdText_unwrapOnce:
  "unwrapOuterMarkdownFence options \<Longrightarrow> \<not> piCommonmarkUnwrapped i \<Longrightarrow>
   mdText (unwrapOnce options i) = stripOuterMarkdownFence (mdText i)"
  by (simp add: unwrapOnce_def Let_def invalidate_def)

lemma setText_patched_stores:
  "mdText (setText_patched state t i) =
     (if enabled (opts state) \<and> unwrapOuterMarkdownFence (opts state)
      then stripOuterMarkdownFence t else t) \<and>
   \<not> piCommonmarkUnwrapped (setText_patched state t i)"
  by (simp add: setText_patched_def original_setText_def Let_def invalidate_def)

text \<open>
  C9. With the patch and unwrapping on, the patched \<^verbatim>\<open>setText\<close> stores the unwrapped
  text and clears the flag of the instance, and the render that follows unwraps the stored
  text once more: the text of the instance after \<^verbatim>\<open>setText\<close> and \<^verbatim>\<open>render\<close> is the
  input unwrapped twice, so that two nested outer fences are both removed.
\<close>

theorem setText_then_render_strips_twice:
  assumes "enabled (opts state)" and "unwrapOuterMarkdownFence (opts state)"
  shows "mdText (setText_patched state t i) = stripOuterMarkdownFence t \<and>
         \<not> piCommonmarkUnwrapped (setText_patched state t i) \<and>
         mdText (snd (render_patched state original_render (setText_patched state t i) width)) =
           stripOuterMarkdownFence (stripOuterMarkdownFence t)"
proof -
  let ?i1 = "setText_patched state t i"
  let ?i2 = "?i1\<lparr>piCommonmarkContentWidth :=
                   Some (max 1 (width - (case paddingX ?i1 of None \<Rightarrow> 0 | Some p \<Rightarrow> p) * 2))\<rparr>"
  have s: "mdText ?i1 = stripOuterMarkdownFence t" "\<not> piCommonmarkUnwrapped ?i1"
    using assms setText_patched_stores [of state t i] by simp_all
  have "mdText (patchMarkdownInstance ?i2 state) =
          mdText (unwrapOnce (opts state) (applyRevision state ?i2))"
    using assms by (simp add: patchMarkdownInstance_def Let_def mdText_patchTheme)
  also have "\<dots> = stripOuterMarkdownFence (mdText (applyRevision state ?i2))"
    using assms s by (intro mdText_unwrapOnce unwrapped_applyRevision) simp_all
  also have "\<dots> = stripOuterMarkdownFence (stripOuterMarkdownFence t)"
    using s by (simp add: mdText_applyRevision)
  finally show ?thesis
    using s by (simp add: render_patched_def Let_def)
qed

lemma strip_double_fence:
  "stripOuterMarkdownFence (cu ''```markdown\<newline>```md\<newline># T\<newline>```\<newline>```'') =
     cu ''```md\<newline># T\<newline>```''"
  by (simp add: fence_eval)

lemma strip_single_fence:
  "stripOuterMarkdownFence (cu ''```md\<newline># T\<newline>```'') = cu ''# T''"
  by (simp add: fence_eval)

theorem setText_then_render_strips_twice_witness:
  "mdText (snd (render_patched (getPatchState None) (\<lambda>i w. [])
      (setText_patched (getPatchState None)
         (cu ''```markdown\<newline>```md\<newline># T\<newline>```\<newline>```'') (fresh_instance [])) 80)) =
   cu ''# T''"
proof -
  have e: "enabled (opts (getPatchState None))" "unwrapOuterMarkdownFence (opts (getPatchState None))"
    by (simp_all add: getPatchState_def defaults_def)
  show ?thesis
    using setText_then_render_strips_twice [OF e,
        of "cu ''```markdown\<newline>```md\<newline># T\<newline>```\<newline>```''" "fresh_instance []" "\<lambda>i w. []" 80]
    by (simp only: strip_double_fence strip_single_fence)
qed

section \<open>The revision\<close>



































section \<open>The indent\<close>

lemma below_doubleLimit: "\<bar>n\<bar> < 2 ^ 53 \<Longrightarrow> \<bar>n\<bar> < doubleLimit"
proof -
  assume a: "\<bar>n\<bar> < 2 ^ 53"
  have "(2::int) ^ 53 \<le> 2 ^ 970" by (rule power_increasing) simp_all
  moreover have "(2::int) ^ 1024 = 2 ^ 54 * 2 ^ 970" by (simp flip: power_add)
  moreover have "(2::int) ^ 54 * 2 ^ 970 - 2 ^ 970 = (2 ^ 54 - 1) * 2 ^ 970" by (simp add: algebra_simps)
  moreover have "(1::int) * 2 ^ 970 \<le> (2 ^ 54 - 1) * 2 ^ 970" by (rule mult_right_mono) simp_all
  ultimately show ?thesis using a by (simp add: doubleLimit_def)
qed

lemmas parse_eval = parseInt10_def digitsValue_def is_digit_def trimStart_def is_space_def cu_eval

lemma toInt_abc: "toInt (JString (cu ''abc'')) = None"
  by (simp add: toInt_def parse_eval)

lemma toInt_99: "toInt (JString (cu ''99'')) = Some 99"
proof -
  have "parseInt10 (cu ''99'') = Some 99" by (simp add: parse_eval)
  moreover have "\<bar>99::int\<bar> < doubleLimit" by (rule below_doubleLimit) simp
  ultimately show ?thesis by (simp add: toInt_def)
qed

lemma toInt_5: "toInt (JString (cu ''5'')) = Some 5"
proof -
  have "parseInt10 (cu ''5'') = Some 5" by (simp add: parse_eval)
  moreover have "\<bar>5::int\<bar> < doubleLimit" by (rule below_doubleLimit) simp
  ultimately show ?thesis by (simp add: toInt_def)
qed

lemma commandParts_indent_99: "commandParts (cu ''indent 99'') = [cu ''indent'', cu ''99'']"
  by (simp add: commandParts_def trim_eval)

lemma commandParts_indent_abc: "commandParts (cu ''indent abc'') = [cu ''indent'', cu ''abc'']"
  by (simp add: commandParts_def trim_eval)

lemma handler_indent:
  "hasUI ctx \<Longrightarrow> commandParts args = [cu ''indent'', w] \<Longrightarrow>
   renderMdCommandHandler ctx args state =
     indentCommand ctx (Some w) (applyTuiMarkdownPatchOnce state)"
  by (simp add: renderMdCommandHandler_def Let_def cu_eval)

lemma indentCommand_numeric:
  "toInt (JString w) = Some n \<Longrightarrow>
   opts (fst (indentCommand ctx (Some w) state)) =
     (opts state)\<lparr>codeBlockIndent := replicate (clampSpaces n) SPACE\<rparr>"
  by (simp add: indentCommand_def Let_def split_beta commit_def)

lemma indentCommand_not_numeric:
  "toInt (JString w) = None \<Longrightarrow>
   indentCommand ctx (Some w) state =
     (state, [Notify (cu ''render-md: indent must be a number 0..8'') Warning])"
  by (simp add: indentCommand_def)

text \<open>
  The claim C8 as it is stated fails for a number out of range: from the default indent
  of four spaces, the command \<^verbatim>\<open>indent 99\<close> does not keep the four spaces, it sets
  eight.
\<close>

theorem indent_out_of_range_counterexample:
  "codeBlockIndent (opts (getPatchState None)) = replicate 4 SPACE \<and>
   codeBlockIndent
     (opts (fst (renderMdCommandHandler ui_ctx (cu ''indent 99'') (getPatchState None)))) =
     replicate 8 SPACE"
proof -
  have "renderMdCommandHandler ui_ctx (cu ''indent 99'') (getPatchState None) =
        indentCommand ui_ctx (Some (cu ''99'')) (applyTuiMarkdownPatchOnce (getPatchState None))"
    by (rule handler_indent) (simp_all add: ui_ctx_def commandParts_indent_99)
  then show ?thesis
    by (simp add: indentCommand_numeric [OF toInt_99] clampSpaces_def getPatchState_def defaults_def
        applyTuiMarkdownPatchOnce_def)
qed

text \<open>
  C8, amended. A value that reads as a number sets the indent to that number of spaces
  clamped into the range from 0 to 8: a number out of range gives the nearer bound, not
  the previous value. A value that does not read as a number leaves the state as it is in
  the live-edit command, which only shows a warning, and gives the caller's default where
  the flag is parsed. In particular the command \<^verbatim>\<open>indent abc\<close> leaves the options as
  they are; the handler returns its state and its effects, it has no failing path.
\<close>

theorem indent_input:
  "(toInt (JString w) = Some n \<longrightarrow>
      codeBlockIndent (opts (fst (indentCommand ctx (Some w) state))) =
        replicate (nat (max 0 (min 8 n))) SPACE \<and>
      length (codeBlockIndent (opts (fst (indentCommand ctx (Some w) state)))) \<le> 8) \<and>
   (toInt (JString w) = None \<longrightarrow>
      indentCommand ctx (Some w) state =
        (state, [Notify (cu ''render-md: indent must be a number 0..8'') Warning])) \<and>
   toInt (JString (cu ''abc'')) = None \<and>
   (hasUI ctx \<longrightarrow> opts (fst (renderMdCommandHandler ctx (cu ''indent abc'') state)) = opts state) \<and>
   parseIndentSpaces v d =
     (case toInt v of None \<Rightarrow> replicate d SPACE
      | Some m \<Rightarrow> replicate (nat (max 0 (min 8 m))) SPACE)"
proof -
  have a: "opts (fst (renderMdCommandHandler ctx (cu ''indent abc'') state)) = opts state"
    if "hasUI ctx"
    using that
    by (simp add: handler_indent [OF _ commandParts_indent_abc]
        indentCommand_not_numeric [OF toInt_abc] applyTuiMarkdownPatchOnce_def)
  show ?thesis
    by (auto simp: indentCommand_numeric indentCommand_not_numeric toInt_abc a clampSpaces_def
        parseIndentSpaces_def split: option.splits)
qed

theorem indent_input_witness:
  "codeBlockIndent (opts (fst (indentCommand ui_ctx (Some (cu ''5'')) (getPatchState None)))) =
     replicate 5 SPACE \<and>
   opts (fst (renderMdCommandHandler ui_ctx (cu ''indent abc'') (getPatchState None))) =
     opts (getPatchState None)"
proof -
  have h: "hasUI ui_ctx" by (simp add: ui_ctx_def)
  show ?thesis
    using indent_input [of "cu ''5''" 5 ui_ctx "getPatchState None" JUndefined 0] toInt_5 h
    by simp
qed

section \<open>Print mode\<close>

lemma trimEnd_no_trailing_space: "no_trailing_space (trimEnd s)"
proof (cases "dropWhile is_space (rev s)")
  case Nil
  then show ?thesis by (simp add: no_trailing_space_def trimEnd_def)
next
  case (Cons c cs)
  then have "\<not> is_space c"
    using hd_dropWhile [of is_space "rev s"] by auto
  with Cons show ?thesis by (simp add: no_trailing_space_def trimEnd_def)
qed

lemma set_trimEnd: "set (trimEnd s) \<subseteq> set s"
  using set_dropWhileD [of _ is_space "rev s"] by (auto simp: trimEnd_def)

lemma dropTrailingBlank_eq:
  "dropTrailingBlank ls = rev (dropWhile (\<lambda>l. l = []) (rev ls))"
proof (induction ls rule: dropTrailingBlank.induct)
  case (1 ls)
  show ?case
  proof (cases "length ls > 0 \<and> last ls = []")
    case True
    then obtain bl where bl: "ls = bl @ [[]]"
      by (cases ls rule: rev_cases) auto
    have "dropTrailingBlank ls = dropTrailingBlank (butlast ls)"
      using True by (subst dropTrailingBlank.simps) simp
    also have "\<dots> = rev (dropWhile (\<lambda>l. l = []) (rev (butlast ls)))"
      using True "1.IH" by blast
    also have "\<dots> = rev (dropWhile (\<lambda>l. l = []) (rev bl))"
      by (simp add: bl)
    also have "\<dots> = rev (dropWhile (\<lambda>l. l = []) (rev ls))"
      by (simp add: bl)
    finally show ?thesis .
  next
    case False
    then have "dropTrailingBlank ls = ls"
      by (subst dropTrailingBlank.simps) auto
    moreover from False have "rev (dropWhile (\<lambda>l. l = []) (rev ls)) = ls"
      by (cases ls rule: rev_cases) auto
    ultimately show ?thesis by simp
  qed
qed

lemma dropTrailingBlank_append:
  "\<exists>bs. ls = dropTrailingBlank ls @ bs \<and> (\<forall>b\<in>set bs. b = [])"
proof -
  have "rev ls = takeWhile (\<lambda>l. l = []) (rev ls) @ dropWhile (\<lambda>l. l = []) (rev ls)" by simp
  then have "ls = rev (dropWhile (\<lambda>l. l = []) (rev ls)) @ rev (takeWhile (\<lambda>l. l = []) (rev ls))"
    by (metis rev_append rev_rev_ident)
  moreover have "\<forall>b\<in>set (rev (takeWhile (\<lambda>l. l = []) (rev ls))). b = []"
    by (auto dest: set_takeWhileD)
  ultimately show ?thesis unfolding dropTrailingBlank_eq by blast
qed

lemma set_dropTrailingBlank: "set (dropTrailingBlank ls) \<subseteq> set ls"
  using set_dropWhileD [of _ "\<lambda>l. l = []" "rev ls"] by (auto simp: dropTrailingBlank_eq)

lemma last_dropTrailingBlank: "dropTrailingBlank ls \<noteq> [] \<Longrightarrow> last (dropTrailingBlank ls) \<noteq> []"
proof -
  assume "dropTrailingBlank ls \<noteq> []"
  then have ne: "dropWhile (\<lambda>l. l = []) (rev ls) \<noteq> []" by (simp add: dropTrailingBlank_eq)
  then have "hd (dropWhile (\<lambda>l. l = []) (rev ls)) \<noteq> []"
    using hd_dropWhile [of "\<lambda>l. l = []" "rev ls"] by simp
  with ne show ?thesis by (simp add: dropTrailingBlank_eq last_rev)
qed

lemma splitLines_from_append:
  "LF \<notin> set l \<Longrightarrow> splitLines_from cur (l @ rest) = splitLines_from (cur @ l) rest"
  by (induction l arbitrary: cur) auto

lemma splitLines_from_join:
  "\<forall>l\<in>set (l0 # ls). LF \<notin> set l \<Longrightarrow>
   splitLines_from cur (join [LF] (l0 # ls)) = (cur @ l0) # ls"
proof (induction ls arbitrary: cur l0)
  case Nil
  then show ?case using splitLines_from_append [of l0 cur "[]"] by simp
next
  case (Cons m ls)
  then have "splitLines_from cur (join [LF] (l0 # m # ls)) =
             splitLines_from (cur @ l0) (LF # join [LF] (m # ls))"
    by (simp add: splitLines_from_append)
  also have "\<dots> = (cur @ l0) # splitLines_from [] (join [LF] (m # ls))" by simp
  also have "\<dots> = (cur @ l0) # m # ls" using Cons.prems by (simp add: Cons.IH)
  finally show ?case .
qed

lemma splitLines_join:
  "ls \<noteq> [] \<Longrightarrow> \<forall>l\<in>set ls. LF \<notin> set l \<Longrightarrow> splitLines (join [LF] ls) = ls"
  by (cases ls) (simp_all add: splitLines_def splitLines_from_join del: join.simps)

text \<open>
  C6. The print-mode renderer trims the white space at the end of every rendered line,
  removes the blank lines at the end of the sequence (what it removes is blank), and joins
  the rest with line feeds. In the sequence it joins, no line ends with white space and
  the last line is not blank. When no rendered line holds a line feed of its own, these
  are the lines of the returned string: none of them ends with white space, and the last
  one is not blank unless the string is empty.
\<close>

theorem renderMarkdownToTerminal_trimmed:
  "(\<exists>blanks. map trimEnd (md_render markdown th width) =
       dropTrailingBlank (map trimEnd (md_render markdown th width)) @ blanks \<and>
       (\<forall>b\<in>set blanks. b = [])) \<and>
   renderMarkdownToTerminal md_render markdown width th =
     join [LF] (dropTrailingBlank (map trimEnd (md_render markdown th width))) \<and>
   (\<forall>l\<in>set (dropTrailingBlank (map trimEnd (md_render markdown th width))). no_trailing_space l) \<and>
   (dropTrailingBlank (map trimEnd (md_render markdown th width)) \<noteq> [] \<longrightarrow>
      last (dropTrailingBlank (map trimEnd (md_render markdown th width))) \<noteq> []) \<and>
   ((\<forall>l\<in>set (md_render markdown th width). LF \<notin> set l) \<longrightarrow>
      (\<forall>l\<in>set (splitLines (renderMarkdownToTerminal md_render markdown width th)).
         no_trailing_space l) \<and>
      (renderMarkdownToTerminal md_render markdown width th = [] \<or>
       last (splitLines (renderMarkdownToTerminal md_render markdown width th)) \<noteq> []))"
proof -
  let ?ls = "dropTrailingBlank (map trimEnd (md_render markdown th width))"
  have r: "renderMarkdownToTerminal md_render markdown width th = join [LF] ?ls"
    by (simp add: renderMarkdownToTerminal_def Let_def)
  have sub: "set ?ls \<subseteq> trimEnd ` set (md_render markdown th width)"
    using set_dropTrailingBlank [of "map trimEnd (md_render markdown th width)"] by simp
  have nts: "\<forall>l\<in>set ?ls. no_trailing_space l"
    using sub trimEnd_no_trailing_space by auto
  have lst: "?ls \<noteq> [] \<longrightarrow> last ?ls \<noteq> []"
    using last_dropTrailingBlank by blast
  have str: "(\<forall>l\<in>set (splitLines (join [LF] ?ls)). no_trailing_space l) \<and>
             (join [LF] ?ls = [] \<or> last (splitLines (join [LF] ?ls)) \<noteq> [])"
    if lf: "\<forall>l\<in>set (md_render markdown th width). LF \<notin> set l"
  proof (cases "?ls = []")
    case True
    then show ?thesis by (simp add: splitLines_def no_trailing_space_def)
  next
    case False
    have "\<forall>l\<in>set ?ls. LF \<notin> set l"
      using sub lf set_trimEnd by blast
    then have "splitLines (join [LF] ?ls) = ?ls"
      using False by (intro splitLines_join) simp_all
    then show ?thesis using nts lst False by simp
  qed
  show ?thesis
    using dropTrailingBlank_append [of "map trimEnd (md_render markdown th width)"] nts lst str
    unfolding r by blast
qed

theorem renderMarkdownToTerminal_trimmed_witness:
  "renderMarkdownToTerminal (\<lambda>m t w. [cu ''Para  '', [], cu ''code '', cu ''   '', []])
     (cu ''Para'') 40 () = cu ''Para\<newline>\<newline>code'' \<and>
   last (splitLines (renderMarkdownToTerminal
     (\<lambda>m t w. [cu ''Para  '', [], cu ''code '', cu ''   '', []]) (cu ''Para'') 40 ())) \<noteq> []"
proof -
  let ?r = "\<lambda>(m::jstring) (t::unit) (w::int). [cu ''Para  '', [], cu ''code '', cu ''   '', []]"
  have v: "renderMarkdownToTerminal ?r (cu ''Para'') 40 () = cu ''Para\<newline>\<newline>code''"
    by (simp add: renderMarkdownToTerminal_def dropTrailingBlank_eq trimEnd_def is_space_def
        cu_eval LF_def)
  have lf: "\<forall>l\<in>set (?r (cu ''Para'') () 40). LF \<notin> set l"
    by (simp add: cu_eval LF_def)
  have ne: "renderMarkdownToTerminal ?r (cu ''Para'') 40 () \<noteq> []"
    using v by (simp add: cu_eval)
  show ?thesis
    using renderMarkdownToTerminal_trimmed [of ?r "cu ''Para''" "()" 40] lf ne v
    by blast
qed

section \<open>Background injection\<close>

lemma getSubstitution_plain:
  "DOLLAR \<notin> set repl \<Longrightarrow> getSubstitution matched before after repl = repl"
  by (induction matched before after repl rule: getSubstitution.induct) auto

lemma replaceAll_from_passed:
  assumes "DOLLAR \<notin> set repl" and "search \<noteq> []"
  shows "replaceAll_from search repl passed rest = replaceAll_from search repl [] rest"
  using assms
proof (induction "length rest" arbitrary: rest passed rule: less_induct)
  case less
  show ?case
  proof (cases "prefix search rest")
    case True
    then have shorter: "length (drop (length search) rest) < length rest"
      using less.prems(2) by (auto simp: prefix_def)
    have "replaceAll_from search repl passed rest =
            repl @ replaceAll_from search repl (passed @ search) (drop (length search) rest)"
      using True less.prems
      by (subst replaceAll_from.simps) (simp add: getSubstitution_plain)
    also have "\<dots> = repl @ replaceAll_from search repl [] (drop (length search) rest)"
      using less.hyps [OF shorter less.prems] by simp
    also have "\<dots> = repl @ replaceAll_from search repl ([] @ search) (drop (length search) rest)"
      using less.hyps [OF shorter less.prems, of "[] @ search"] by simp
    also have "\<dots> = replaceAll_from search repl [] rest"
      using True less.prems
      by (subst (2) replaceAll_from.simps) (simp add: getSubstitution_plain)
    finally show ?thesis .
  next
    case False
    show ?thesis
    proof (cases rest)
      case Nil
      then show ?thesis using False by (simp add: replaceAll_from.simps)
    next
      case (Cons c cs)
      have "replaceAll_from search repl passed rest = c # replaceAll_from search repl (passed @ [c]) cs"
        using False Cons by (subst replaceAll_from.simps) simp
      also have "\<dots> = c # replaceAll_from search repl [] cs"
        using less.hyps [of cs] less.prems Cons by simp
      also have "\<dots> = c # replaceAll_from search repl ([] @ [c]) cs"
        using less.hyps [of cs "[] @ [c]"] less.prems Cons by simp
      also have "\<dots> = replaceAll_from search repl [] rest"
        using False Cons by (subst (2) replaceAll_from.simps) simp
      finally show ?thesis .
    qed
  qed
qed

lemma replaceAll_Nil: "search \<noteq> [] \<Longrightarrow> replaceAll search repl [] = []"
  by (simp add: replaceAll_def replaceAll_from.simps)

lemma replaceAll_match:
  assumes "DOLLAR \<notin> set repl" and "search \<noteq> []"
  shows "replaceAll search repl (search @ xs) = repl @ replaceAll search repl xs"
proof -
  have "replaceAll_from search repl [] (search @ xs) =
          repl @ replaceAll_from search repl ([] @ search) xs"
    using assms by (subst replaceAll_from.simps) (simp add: getSubstitution_plain)
  then show ?thesis
    using replaceAll_from_passed [OF assms, of "[] @ search" xs] by (simp add: replaceAll_def)
qed

lemma replaceAll_skip:
  assumes "DOLLAR \<notin> set repl" and "search \<noteq> []" and "\<not> prefix search (x # xs)"
  shows "replaceAll search repl (x # xs) = x # replaceAll search repl xs"
proof -
  have "replaceAll_from search repl [] (x # xs) = x # replaceAll_from search repl ([] @ [x]) xs"
    using assms by (subst replaceAll_from.simps) simp
  then show ?thesis
    using replaceAll_from_passed [OF assms(1,2), of "[] @ [x]" xs] by (simp add: replaceAll_def)
qed

lemma replaceAll_free:
  assumes "DOLLAR \<notin> set repl" and "e \<notin> set u"
  shows "replaceAll (e # t) repl (u @ xs) = u @ replaceAll (e # t) repl xs"
  using assms(2)
proof (induction u)
  case Nil
  then show ?case by simp
next
  case (Cons x u)
  then have "\<not> prefix (e # t) (x # u @ xs)" by auto
  from replaceAll_skip [OF assms(1) _ this] Cons show ?case by simp
qed

lemma replaceAll_free_all:
  assumes "DOLLAR \<notin> set repl" and "e \<notin> set u"
  shows "replaceAll (e # t) repl u = u"
  using replaceAll_free [OF assms, of t "[]"] by (simp add: replaceAll_Nil)

lemma replaceAll_head:
  assumes "DOLLAR \<notin> set repl"
  shows "replaceAll (e # t) repl (e # t @ xs) = repl @ replaceAll (e # t) repl xs"
  using replaceAll_match [OF assms, of "e # t" xs] by simp

lemma replaceAll_nomatch:
  assumes "DOLLAR \<notin> set repl" and "\<not> prefix t w"
  shows "replaceAll (e # t) repl (e # w) = e # replaceAll (e # t) repl w"
  using replaceAll_skip [OF assms(1), of "e # t" e w] assms(2) by simp

lemma split_first:
  "e \<notin> set xs \<or> (\<exists>u w. xs = u @ e # w \<and> e \<notin> set u)"
  using split_list_first [of e xs] by blast

lemma prefix_free_append:
  assumes "e \<notin> set t"
  shows "prefix t (w @ e # ys) \<longleftrightarrow> prefix t w"
proof
  assume "prefix t (w @ e # ys)"
  then obtain z where z: "w @ e # ys = t @ z" by (auto simp: prefix_def)
  then consider (a) us where "w = t @ us" | (b) us where "w @ us = t" "e # ys = us @ z"
    by (auto simp: append_eq_append_conv2)
  then show "prefix t w"
  proof cases
    case a
    then show ?thesis by simp
  next
    case b
    show ?thesis
    proof (cases us)
      case Nil
      with b show ?thesis by auto
    next
      case (Cons c cs)
      with b have "e \<in> set t" by auto
      with assms show ?thesis by simp
    qed
  qed
next
  assume "prefix t w"
  then show "prefix t (w @ e # ys)" by (auto simp: prefix_def)
qed

lemma prefix_replaceAll:
  assumes d: "DOLLAR \<notin> set (e # r)" and t': "e \<notin> set t'"
  shows "prefix t' (replaceAll (e # t) (e # r) w) \<longleftrightarrow> prefix t' w"
proof -
  from split_first [of e w] show ?thesis
  proof
    assume "e \<notin> set w"
    then show ?thesis by (simp add: replaceAll_free_all [OF d])
  next
    assume "\<exists>u w'. w = u @ e # w' \<and> e \<notin> set u"
    then obtain u w' where w: "w = u @ e # w'" and u: "e \<notin> set u" by blast
    have "\<exists>ys. replaceAll (e # t) (e # r) (e # w') = e # ys"
    proof (cases "prefix t w'")
      case True
      then obtain z where "w' = t @ z" by (auto simp: prefix_def)
      then show ?thesis using replaceAll_head [OF d, where e = e and t = t and xs = z] by simp
    next
      case False
      then show ?thesis using replaceAll_nomatch [OF d False, where e = e] by simp
    qed
    then obtain ys where "replaceAll (e # t) (e # r) (e # w') = e # ys" by blast
    then have "replaceAll (e # t) (e # r) w = u @ e # ys"
      by (simp add: w replaceAll_free [OF d u])
    then show ?thesis
      by (simp add: w prefix_free_append [OF t'])
  qed
qed

lemma reset0_tail0: "reset0 = ESC # tail0" by (simp add: reset0_def tail0_def)
lemma reset49_tail49: "reset49 = ESC # tail49" by (simp add: reset49_def tail49_def)

lemma t_facts:
  "ESC \<notin> set tail0" "ESC \<notin> set tail49" "DOLLAR \<notin> set tail0" "DOLLAR \<notin> set tail49"
  "m_terminated tail0" "m_terminated tail49" "\<not> prefix tail0 (tail49 @ xs)" "\<not> prefix tail49 (tail0 @ xs)"
  by (simp_all add: tail0_def tail49_def cu_eval ESC_def DOLLAR_def m_terminated_def)

lemma takeWhile_until:
  "x \<notin> set u \<Longrightarrow> takeWhile (\<lambda>c. c \<noteq> x) (u @ x # z) = u"
  by (induction u) auto

lemma m_terminated_prefix:
  assumes "m_terminated t" and "m_terminated b" and "prefix t (b @ ys)"
  shows "b = t"
proof -
  from assms(1) obtain t' where t: "t = t' @ [109]" "109 \<notin> set t'"
    by (cases t rule: rev_cases) (auto simp: m_terminated_def)
  from assms(2) obtain b' where b: "b = b' @ [109]" "109 \<notin> set b'"
    by (cases b rule: rev_cases) (auto simp: m_terminated_def)
  from assms(3) obtain z where "b @ ys = t @ z" by (auto simp: prefix_def)
  then have "b' @ 109 # ys = t' @ 109 # z" by (simp add: t b)
  then have "takeWhile (\<lambda>c. c \<noteq> 109) (b' @ 109 # ys) = takeWhile (\<lambda>c. c \<noteq> 109) (t' @ 109 # z)"
    by simp
  then have "b' = t'"
    by (simp add: takeWhile_until t b)
  then show ?thesis by (simp add: t b)
qed

lemma ses_facts:
  assumes "single_escape_sequence bg"
  obtains b where "bg = ESC # b" "ESC \<notin> set b" "DOLLAR \<notin> set bg" "m_terminated b"
proof -
  from assms obtain b where b: "bg = ESC # b" "b \<noteq> []" "last b = 109"
    "\<forall>x\<in>set (butlast b). x \<noteq> ESC \<and> x \<noteq> DOLLAR \<and> x \<noteq> 109"
    by (cases bg) (auto simp: single_escape_sequence_def)
  from b(2) have set_b: "set b = insert (last b) (set (butlast b))"
    by (metis append_butlast_last_id list.set(1,2) set_append Un_insert_right sup_bot.right_neutral)
  have "ESC \<notin> set b" "DOLLAR \<notin> set bg" "m_terminated b"
    using b set_b by (auto simp: m_terminated_def ESC_def DOLLAR_def)
  with b(1) show ?thesis using that by blast
qed

lemma stableBg_Nil: "stableBg bg [] = []"
  by (simp add: stableBg_def replaceAll_Nil reset0_def reset49_def)

lemma stableBg_free:
  assumes "single_escape_sequence bg" and "ESC \<notin> set u"
  shows "stableBg bg (u @ xs) = u @ stableBg bg xs"
proof -
  from assms(1) obtain b where b: "bg = ESC # b" "ESC \<notin> set b" "DOLLAR \<notin> set bg" "m_terminated b"
    by (rule ses_facts)
  have d0: "DOLLAR \<notin> set (reset0 @ bg)"
    using b(3) t_facts by (simp add: reset0_tail0 ESC_def DOLLAR_def)
  show ?thesis
    unfolding stableBg_def reset0_tail0 reset49_tail49
    using replaceAll_free [OF d0 assms(2)] replaceAll_free [OF b(3) assms(2)]
    by (simp add: reset0_tail0)
qed

lemma pass2_bg:
  assumes "single_escape_sequence bg"
  shows "replaceAll reset49 bg (bg @ ys) = bg @ replaceAll reset49 bg ys"
proof -
  from assms(1) obtain b where b: "bg = ESC # b" "ESC \<notin> set b" "DOLLAR \<notin> set bg" "m_terminated b"
    by (rule ses_facts)
  show ?thesis
  proof (cases "prefix tail49 (b @ ys)")
    case True
    then have "b = tail49" using m_terminated_prefix [OF t_facts(6) b(4)] by blast
    then show ?thesis
      using replaceAll_head [OF b(3), of ESC tail49 ys] by (simp add: b(1) reset49_tail49)
  next
    case False
    have "replaceAll (ESC # tail49) bg (ESC # b @ ys) = ESC # replaceAll (ESC # tail49) bg (b @ ys)"
      using replaceAll_nomatch [OF b(3) False] by simp
    also have "\<dots> = ESC # b @ replaceAll (ESC # tail49) bg ys"
      using replaceAll_free [OF b(3) b(2)] by simp
    finally show ?thesis by (simp add: b(1) reset49_tail49)
  qed
qed

lemma stableBg_reset0:
  assumes "single_escape_sequence bg"
  shows "stableBg bg (reset0 @ xs) = reset0 @ bg @ stableBg bg xs"
proof -
  from assms(1) obtain b where b: "bg = ESC # b" "ESC \<notin> set b" "DOLLAR \<notin> set bg" "m_terminated b"
    by (rule ses_facts)
  have d0: "DOLLAR \<notin> set (reset0 @ bg)"
    using b(3) t_facts by (simp add: reset0_tail0 ESC_def DOLLAR_def)
  let ?p = "replaceAll reset0 (reset0 @ bg) xs"
  have 1: "replaceAll reset0 (reset0 @ bg) (reset0 @ xs) = reset0 @ bg @ ?p"
    using replaceAll_head [OF d0, of ESC tail0 xs] by (simp add: reset0_tail0)
  have "replaceAll reset49 bg (ESC # tail0 @ bg @ ?p) = ESC # replaceAll reset49 bg (tail0 @ bg @ ?p)"
    using replaceAll_nomatch [OF b(3) t_facts(8), of ESC "bg @ ?p"] by (simp add: reset49_tail49)
  also have "\<dots> = ESC # tail0 @ replaceAll reset49 bg (bg @ ?p)"
    using replaceAll_free [OF b(3) t_facts(1), of tail49 "bg @ ?p"] by (simp add: reset49_tail49)
  also have "\<dots> = ESC # tail0 @ bg @ replaceAll reset49 bg ?p"
    by (simp add: pass2_bg [OF assms])
  finally show ?thesis
    by (simp add: stableBg_def 1) (simp add: reset0_tail0)
qed

lemma stableBg_reset49:
  assumes "single_escape_sequence bg"
  shows "stableBg bg (reset49 @ xs) = bg @ stableBg bg xs"
proof -
  from assms(1) obtain b where b: "bg = ESC # b" "ESC \<notin> set b" "DOLLAR \<notin> set bg" "m_terminated b"
    by (rule ses_facts)
  have d0: "DOLLAR \<notin> set (reset0 @ bg)"
    using b(3) t_facts by (simp add: reset0_tail0 ESC_def DOLLAR_def)
  let ?p = "replaceAll reset0 (reset0 @ bg) xs"
  have "replaceAll reset0 (reset0 @ bg) (ESC # tail49 @ xs) =
          ESC # replaceAll reset0 (reset0 @ bg) (tail49 @ xs)"
    using replaceAll_nomatch [OF d0 t_facts(7), of ESC xs] by (simp add: reset0_tail0)
  also have "\<dots> = ESC # tail49 @ ?p"
    using replaceAll_free [OF d0 t_facts(2), of tail0 xs] by (simp add: reset0_tail0)
  finally have 1: "replaceAll reset0 (reset0 @ bg) (reset49 @ xs) = reset49 @ ?p"
    by (simp add: reset49_tail49)
  have "replaceAll reset49 bg (reset49 @ ?p) = bg @ replaceAll reset49 bg ?p"
    using replaceAll_head [OF b(3), of ESC tail49 ?p] by (simp add: reset49_tail49)
  then show ?thesis
    by (simp add: stableBg_def 1)
qed

lemma stableBg_prefix:
  assumes "single_escape_sequence bg" and "ESC \<notin> set t'"
  shows "prefix t' (stableBg bg w) \<longleftrightarrow> prefix t' w"
proof -
  from assms(1) obtain b where b: "bg = ESC # b" "ESC \<notin> set b" "DOLLAR \<notin> set bg" "m_terminated b"
    by (rule ses_facts)
  have d0: "DOLLAR \<notin> set (ESC # (tail0 @ bg))"
    using b(3) t_facts by (simp add: ESC_def DOLLAR_def)
  have d49: "DOLLAR \<notin> set (ESC # b)" using b by simp
  have "prefix t' (replaceAll (ESC # tail49) (ESC # b) (replaceAll (ESC # tail0) (ESC # (tail0 @ bg)) w)) \<longleftrightarrow>
        prefix t' (replaceAll (ESC # tail0) (ESC # (tail0 @ bg)) w)"
    by (rule prefix_replaceAll [OF d49 assms(2)])
  also have "\<dots> \<longleftrightarrow> prefix t' w"
    by (rule prefix_replaceAll [OF d0 assms(2)])
  finally show ?thesis
    by (simp add: stableBg_def reset0_tail0 reset49_tail49 b(1))
qed

lemma stableBg_esc:
  assumes "single_escape_sequence bg" and "\<not> prefix tail0 w" and "\<not> prefix tail49 w"
  shows "stableBg bg (ESC # w) = ESC # stableBg bg w"
proof -
  from assms(1) obtain b where b: "bg = ESC # b" "ESC \<notin> set b" "DOLLAR \<notin> set bg" "m_terminated b"
    by (rule ses_facts)
  have d0: "DOLLAR \<notin> set (reset0 @ bg)"
    using b(3) t_facts by (simp add: reset0_tail0 ESC_def DOLLAR_def)
  have d0': "DOLLAR \<notin> set (ESC # (tail0 @ bg))"
    using d0 by (simp add: reset0_tail0)
  let ?p = "replaceAll reset0 (reset0 @ bg) w"
  have 1: "replaceAll reset0 (reset0 @ bg) (ESC # w) = ESC # ?p"
    using replaceAll_nomatch [OF d0 assms(2), of ESC] by (simp add: reset0_tail0)
  have "prefix tail49 ?p \<longleftrightarrow> prefix tail49 w"
    using prefix_replaceAll [OF d0' t_facts(2), of tail0 w] by (simp add: reset0_tail0)
  then have "\<not> prefix tail49 ?p" using assms(3) by simp
  then have "replaceAll reset49 bg (ESC # ?p) = ESC # replaceAll reset49 bg ?p"
    using replaceAll_nomatch [OF b(3), of tail49 ?p ESC] by (simp add: reset49_tail49)
  then show ?thesis
    by (simp add: stableBg_def 1)
qed

lemma esc_induct [case_names free reset0 reset49 esc]:
  assumes "\<And>u. ESC \<notin> set u \<Longrightarrow> P u"
    and "\<And>u w. ESC \<notin> set u \<Longrightarrow> P w \<Longrightarrow> P (u @ reset0 @ w)"
    and "\<And>u w. ESC \<notin> set u \<Longrightarrow> P w \<Longrightarrow> P (u @ reset49 @ w)"
    and "\<And>u w. ESC \<notin> set u \<Longrightarrow> \<not> prefix tail0 w \<Longrightarrow> \<not> prefix tail49 w \<Longrightarrow> P w \<Longrightarrow> P (u @ ESC # w)"
  shows "P s"
proof (induction "length s" arbitrary: s rule: less_induct)
  case less
  from split_first [of ESC s] show ?case
  proof
    assume "ESC \<notin> set s"
    then show ?thesis by (rule assms(1))
  next
    assume "\<exists>u w. s = u @ ESC # w \<and> ESC \<notin> set u"
    then obtain u w where s: "s = u @ ESC # w" and u: "ESC \<notin> set u" by blast
    show ?thesis
    proof (cases "prefix tail0 w")
      case True
      then obtain z where z: "w = tail0 @ z" by (auto simp: prefix_def)
      have "P z" by (rule less) (simp add: s z)
      from assms(2) [OF u this] show ?thesis by (simp add: s z reset0_tail0)
    next
      case n0: False
      show ?thesis
      proof (cases "prefix tail49 w")
        case True
        then obtain z where z: "w = tail49 @ z" by (auto simp: prefix_def)
        have "P z" by (rule less) (simp add: s z)
        from assms(3) [OF u this] show ?thesis by (simp add: s z reset49_tail49)
      next
        case False
        have "P w" by (rule less) (simp add: s)
        from assms(4) [OF u n0 False this] show ?thesis by (simp add: s)
      qed
    qed
  qed
qed

lemma each_occurrence_Nil: "each_occurrence (e # t) Q []"
  by (simp add: each_occurrence_def)

lemma each_occurrence_other:
  assumes "c \<noteq> e" and "each_occurrence (e # t) Q ys"
  shows "each_occurrence (e # t) Q (c # ys)"
  unfolding each_occurrence_def
proof (intro allI impI)
  fix u v
  assume eq: "c # ys = u @ (e # t) @ v"
  show "Q v"
  proof (cases u)
    case Nil
    with eq assms(1) show ?thesis by simp
  next
    case (Cons a u')
    with eq have "ys = u' @ (e # t) @ v" by simp
    with assms(2) show ?thesis by (auto simp: each_occurrence_def)
  qed
qed

lemma each_occurrence_free:
  assumes "e \<notin> set u" and "each_occurrence (e # t) Q ys"
  shows "each_occurrence (e # t) Q (u @ ys)"
  using assms(1) by (induction u) (simp_all add: assms(2) each_occurrence_other)

lemma each_occurrence_head:
  assumes "each_occurrence (e # t) Q ys" and "\<And>v. ys = t @ v \<Longrightarrow> Q v"
  shows "each_occurrence (e # t) Q (e # ys)"
  unfolding each_occurrence_def
proof (intro allI impI)
  fix u v
  assume eq: "e # ys = u @ (e # t) @ v"
  show "Q v"
  proof (cases u)
    case Nil
    with eq have "ys = t @ v" by simp
    then show ?thesis by (rule assms(2))
  next
    case (Cons a u')
    with eq have "ys = u' @ (e # t) @ v" by simp
    with assms(1) show ?thesis by (auto simp: each_occurrence_def)
  qed
qed

lemma each_occurrence_bg:
  assumes ses: "single_escape_sequence bg" and ne: "bg \<noteq> ESC # t"
    and mt: "m_terminated t" and ys: "each_occurrence (ESC # t) Q ys"
  shows "each_occurrence (ESC # t) Q (bg @ ys)"
proof -
  from ses obtain b where b: "bg = ESC # b" "ESC \<notin> set b" "DOLLAR \<notin> set bg" "m_terminated b"
    by (rule ses_facts)
  have "each_occurrence (ESC # t) Q (b @ ys)"
    by (rule each_occurrence_free [OF b(2) ys])
  moreover have "Q v" if "b @ ys = t @ v" for v
  proof -
    from that have "prefix t (b @ ys)" by (simp add: prefix_def)
    from m_terminated_prefix [OF mt b(4) this] b(1) ne show ?thesis by simp
  qed
  ultimately have "each_occurrence (ESC # t) Q (ESC # b @ ys)"
    by (rule each_occurrence_head)
  then show ?thesis by (simp add: b(1))
qed

lemma stableBg_free_all:
  "single_escape_sequence bg \<Longrightarrow> ESC \<notin> set u \<Longrightarrow> stableBg bg u = u"
  using stableBg_free [of bg u "[]"] by (simp add: stableBg_Nil)

lemma stableBg_reset0':
  "single_escape_sequence bg \<Longrightarrow> stableBg bg (ESC # tail0 @ xs) = ESC # tail0 @ bg @ stableBg bg xs"
  using stableBg_reset0 [of bg xs] by (simp add: reset0_tail0)

lemma stableBg_reset49':
  "single_escape_sequence bg \<Longrightarrow> stableBg bg (ESC # tail49 @ xs) = bg @ stableBg bg xs"
  using stableBg_reset49 [of bg xs] by (simp add: reset49_tail49)

lemma stableBg_followed:
  assumes ses: "single_escape_sequence bg" and ne: "bg \<noteq> reset0"
  shows "each_occurrence reset0 (prefix bg) (stableBg bg s)"
proof (induction s rule: esc_induct)
  case (free u)
  then show ?case
    using each_occurrence_free [OF free each_occurrence_Nil, of tail0 "prefix bg"]
    by (simp add: stableBg_free_all [OF ses] reset0_tail0)
next
  case (reset0 u w)
  have "each_occurrence (ESC # tail0) (prefix bg) (bg @ stableBg bg w)"
    using each_occurrence_bg [OF ses _ t_facts(5)] ne reset0(2) by (simp add: reset0_tail0)
  then have "each_occurrence (ESC # tail0) (prefix bg) (tail0 @ bg @ stableBg bg w)"
    by (rule each_occurrence_free [OF t_facts(1)])
  then have "each_occurrence (ESC # tail0) (prefix bg) (ESC # tail0 @ bg @ stableBg bg w)"
    by (rule each_occurrence_head) simp
  then have "each_occurrence (ESC # tail0) (prefix bg) (u @ ESC # tail0 @ bg @ stableBg bg w)"
    by (rule each_occurrence_free [OF reset0(1)])
  then show ?case
    by (simp add: stableBg_free [OF ses reset0(1)] stableBg_reset0' [OF ses] reset0_tail0)
next
  case (reset49 u w)
  have "each_occurrence (ESC # tail0) (prefix bg) (bg @ stableBg bg w)"
    using each_occurrence_bg [OF ses _ t_facts(5)] ne reset49(2) by (simp add: reset0_tail0)
  then have "each_occurrence (ESC # tail0) (prefix bg) (u @ bg @ stableBg bg w)"
    by (rule each_occurrence_free [OF reset49(1)])
  then show ?case
    by (simp add: stableBg_free [OF ses reset49(1)] stableBg_reset49' [OF ses] reset0_tail0 reset49_tail49)
next
  case (esc u w)
  have "\<not> prefix tail0 (stableBg bg w)"
    using esc(2) by (simp add: stableBg_prefix [OF ses t_facts(1)])
  then have "\<And>v. stableBg bg w = tail0 @ v \<Longrightarrow> prefix bg v"
    by (auto simp: prefix_def)
  with esc(4) have "each_occurrence (ESC # tail0) (prefix bg) (ESC # stableBg bg w)"
    by (intro each_occurrence_head) (simp_all add: reset0_tail0)
  then have "each_occurrence (ESC # tail0) (prefix bg) (u @ ESC # stableBg bg w)"
    by (rule each_occurrence_free [OF esc(1)])
  then show ?case
    by (simp add: stableBg_free [OF ses esc(1)] stableBg_esc [OF ses esc(2,3)] reset0_tail0)
qed

lemma stableBg_clean:
  assumes ses: "single_escape_sequence bg" and ne: "bg \<noteq> reset49"
  shows "each_occurrence reset49 (\<lambda>v. False) (stableBg bg s)"
proof (induction s rule: esc_induct)
  case (free u)
  then show ?case
    using each_occurrence_free [OF free each_occurrence_Nil, of tail49 "\<lambda>v. False"]
    by (simp add: stableBg_free_all [OF ses] reset49_tail49)
next
  case (reset0 u w)
  have "each_occurrence (ESC # tail49) (\<lambda>v. False) (bg @ stableBg bg w)"
    using each_occurrence_bg [OF ses _ t_facts(6)] ne reset0(2) by (simp add: reset49_tail49)
  then have "each_occurrence (ESC # tail49) (\<lambda>v. False) (tail0 @ bg @ stableBg bg w)"
    by (rule each_occurrence_free [OF t_facts(1)])
  moreover have "\<And>v. tail0 @ bg @ stableBg bg w = tail49 @ v \<Longrightarrow> False"
    using t_facts(8) [of "bg @ stableBg bg w"] by (auto simp: prefix_def)
  ultimately have "each_occurrence (ESC # tail49) (\<lambda>v. False) (ESC # tail0 @ bg @ stableBg bg w)"
    by (rule each_occurrence_head)
  then have "each_occurrence (ESC # tail49) (\<lambda>v. False) (u @ ESC # tail0 @ bg @ stableBg bg w)"
    by (rule each_occurrence_free [OF reset0(1)])
  then show ?case
    by (simp add: stableBg_free [OF ses reset0(1)] stableBg_reset0' [OF ses] reset0_tail0 reset49_tail49)
next
  case (reset49 u w)
  have "each_occurrence (ESC # tail49) (\<lambda>v. False) (bg @ stableBg bg w)"
    using each_occurrence_bg [OF ses _ t_facts(6)] ne reset49(2) by (simp add: reset49_tail49)
  then have "each_occurrence (ESC # tail49) (\<lambda>v. False) (u @ bg @ stableBg bg w)"
    by (rule each_occurrence_free [OF reset49(1)])
  then show ?case
    by (simp add: stableBg_free [OF ses reset49(1)] stableBg_reset49' [OF ses] reset49_tail49)
next
  case (esc u w)
  have "\<not> prefix tail49 (stableBg bg w)"
    using esc(3) by (simp add: stableBg_prefix [OF ses t_facts(2)])
  then have "\<And>v. stableBg bg w = tail49 @ v \<Longrightarrow> False"
    by (auto simp: prefix_def)
  with esc(4) have "each_occurrence (ESC # tail49) (\<lambda>v. False) (ESC # stableBg bg w)"
    by (intro each_occurrence_head) (simp_all add: reset49_tail49)
  then have "each_occurrence (ESC # tail49) (\<lambda>v. False) (u @ ESC # stableBg bg w)"
    by (rule each_occurrence_free [OF esc(1)])
  then show ?case
    by (simp add: stableBg_free [OF ses esc(1)] stableBg_esc [OF ses esc(2,3)] reset49_tail49)
qed

lemma stableBg_split:
  assumes ses: "single_escape_sequence bg"
  shows "stableBg bg (s @ ESC # ys) = stableBg bg s @ stableBg bg (ESC # ys)"
proof (induction s rule: esc_induct)
  case (free u)
  then show ?case
    by (simp add: stableBg_free [OF ses] stableBg_free_all [OF ses])
next
  case (reset0 u w)
  have "stableBg bg ((u @ reset0 @ w) @ ESC # ys) = stableBg bg (u @ reset0 @ (w @ ESC # ys))"
    by simp
  also have "\<dots> = u @ reset0 @ bg @ stableBg bg (w @ ESC # ys)"
    by (simp only: stableBg_free [OF ses reset0(1)] stableBg_reset0 [OF ses])
  also have "\<dots> = stableBg bg (u @ reset0 @ w) @ stableBg bg (ESC # ys)"
    by (simp add: reset0(2) stableBg_free [OF ses reset0(1)] stableBg_reset0 [OF ses])
  finally show ?case .
next
  case (reset49 u w)
  have "stableBg bg ((u @ reset49 @ w) @ ESC # ys) = stableBg bg (u @ reset49 @ (w @ ESC # ys))"
    by simp
  also have "\<dots> = u @ bg @ stableBg bg (w @ ESC # ys)"
    by (simp only: stableBg_free [OF ses reset49(1)] stableBg_reset49 [OF ses])
  also have "\<dots> = stableBg bg (u @ reset49 @ w) @ stableBg bg (ESC # ys)"
    by (simp add: reset49(2) stableBg_free [OF ses reset49(1)] stableBg_reset49 [OF ses])
  finally show ?case .
next
  case (esc u w)
  have n0: "\<not> prefix tail0 (w @ ESC # ys)" and n49: "\<not> prefix tail49 (w @ ESC # ys)"
    using esc(2,3) by (simp_all add: prefix_free_append t_facts)
  have "stableBg bg ((u @ ESC # w) @ ESC # ys) = stableBg bg (u @ ESC # (w @ ESC # ys))"
    by simp
  also have "\<dots> = u @ ESC # stableBg bg (w @ ESC # ys)"
    by (simp only: stableBg_free [OF ses esc(1)] stableBg_esc [OF ses n0 n49])
  also have "\<dots> = stableBg bg (u @ ESC # w) @ stableBg bg (ESC # ys)"
    by (simp add: esc(4) stableBg_free [OF ses esc(1)] stableBg_esc [OF ses esc(2,3)])
  finally show ?case .
qed

lemma stableBg_reset49_inside:
  assumes ses: "single_escape_sequence bg"
  shows "stableBg bg (u @ reset49 @ v) = stableBg bg u @ bg @ stableBg bg v"
  using stableBg_split [OF ses, of u "tail49 @ v"] stableBg_reset49 [OF ses, of v]
  by (simp add: reset49_tail49)

lemma applyCodeBg_unset: "\<not> truthy (codeBlockBgAnsi options) \<Longrightarrow> applyCodeBg options s = s"
  by (simp add: applyCodeBg_def)

lemma applyCodeBg_set:
  "codeBlockBgAnsi options = Some bg \<Longrightarrow> bg \<noteq> [] \<Longrightarrow> applyCodeBg options s = bg @ stableBg bg s"
  by (simp add: applyCodeBg_def truthy_def stableBg_def Let_def)

lemma ses_not_Nil: "single_escape_sequence bg \<Longrightarrow> bg \<noteq> []"
  by (auto simp: single_escape_sequence_def)

lemma occurs_each: "occurs p xs \<longleftrightarrow> \<not> each_occurrence p (\<lambda>v. False) xs"
  by (auto simp: occurs_def each_occurrence_def)

lemma occurs_self: "occurs p p"
  unfolding occurs_def by (rule exI [of _ "[]"], rule exI [of _ "[]"]) simp

lemma ses_occurs_reset49:
  assumes "single_escape_sequence bg" and "bg \<noteq> reset49"
  shows "\<not> occurs reset49 bg"
  using each_occurrence_bg [OF assms(1) _ t_facts(6) each_occurrence_Nil, of "\<lambda>v. False"] assms(2)
  by (simp add: occurs_each reset49_tail49)

text \<open>
  C2. Without a background introducer (none, or the empty string) \<^verbatim>\<open>applyCodeBg\<close>
  returns its line as it is. With one, which is one control sequence and no reset, the
  result begins with the introducer, the introducer immediately follows every full reset
  that occurs in the result, and every background reset of the line is rewritten to the
  introducer: the result for a line around a background reset is the result for the part
  before it followed by the result for the part behind it.
\<close>

theorem applyCodeBg_background_after_resets:
  "(\<not> truthy (codeBlockBgAnsi options) \<longrightarrow> applyCodeBg options s = s) \<and>
   (codeBlockBgAnsi options = Some bg \<and> single_escape_sequence bg \<and> bg \<noteq> reset0 \<longrightarrow>
      prefix bg (applyCodeBg options s) \<and>
      (\<forall>u v. applyCodeBg options s = u @ reset0 @ v \<longrightarrow> prefix bg v) \<and>
      (\<forall>u v. s = u @ reset49 @ v \<longrightarrow>
         applyCodeBg options s = applyCodeBg options u @ applyCodeBg options v))"
proof (intro conjI impI)
  assume "\<not> truthy (codeBlockBgAnsi options)"
  then show "applyCodeBg options s = s" by (rule applyCodeBg_unset)
next
  assume h: "codeBlockBgAnsi options = Some bg \<and> single_escape_sequence bg \<and> bg \<noteq> reset0"
  then have ses: "single_escape_sequence bg" and ne: "bg \<noteq> reset0" by simp_all
  have out: "applyCodeBg options x = bg @ stableBg bg x" for x
    using h by (intro applyCodeBg_set ses_not_Nil) simp_all
  show "prefix bg (applyCodeBg options s)" by (simp add: out)
  have "each_occurrence reset0 (prefix bg) (bg @ stableBg bg s)"
    using each_occurrence_bg [OF ses _ t_facts(5) stableBg_followed [OF ses ne, unfolded reset0_tail0]] ne
    by (simp add: reset0_tail0)
  then show "\<forall>u v. applyCodeBg options s = u @ reset0 @ v \<longrightarrow> prefix bg v"
    by (simp add: out each_occurrence_def)
  show "\<forall>u v. s = u @ reset49 @ v \<longrightarrow>
          applyCodeBg options s = applyCodeBg options u @ applyCodeBg options v"
    by (simp add: out stableBg_reset49_inside [OF ses])
qed

text \<open>
  C10. With a background introducer, one control sequence, that holds no background
  reset, no background reset occurs in the result of \<^verbatim>\<open>applyCodeBg\<close>: each one of
  the line is replaced by the introducer, not kept and followed by it.
\<close>

theorem applyCodeBg_no_background_reset:
  "codeBlockBgAnsi options = Some bg \<and> single_escape_sequence bg \<and> \<not> occurs reset49 bg \<longrightarrow>
     \<not> occurs reset49 (applyCodeBg options s) \<and>
     (\<forall>u v. s = u @ reset49 @ v \<longrightarrow>
        applyCodeBg options s = bg @ stableBg bg u @ bg @ stableBg bg v)"
proof (intro impI conjI)
  assume h: "codeBlockBgAnsi options = Some bg \<and> single_escape_sequence bg \<and> \<not> occurs reset49 bg"
  then have ses: "single_escape_sequence bg" by simp
  from h have ne: "bg \<noteq> reset49" using occurs_self [of reset49] by auto
  have out: "applyCodeBg options x = bg @ stableBg bg x" for x
    using h by (intro applyCodeBg_set ses_not_Nil) simp_all
  have "each_occurrence reset49 (\<lambda>v. False) (bg @ stableBg bg s)"
    using each_occurrence_bg [OF ses _ t_facts(6) stableBg_clean [OF ses ne, unfolded reset49_tail49]] ne
    by (simp add: reset49_tail49)
  then show "\<not> occurs reset49 (applyCodeBg options s)"
    by (simp add: out occurs_each)
  show "\<forall>u v. s = u @ reset49 @ v \<longrightarrow>
          applyCodeBg options s = bg @ stableBg bg u @ bg @ stableBg bg v"
    by (simp add: out stableBg_reset49_inside [OF ses])
qed

lemma replaceAll_step:
  assumes "DOLLAR \<notin> set repl" and "search \<noteq> []"
  shows "replaceAll search repl (x # xs) =
           (if prefix search (x # xs) then repl @ replaceAll search repl (drop (length search) (x # xs))
            else x # replaceAll search repl xs)"
proof (cases "prefix search (x # xs)")
  case True
  then obtain z where z: "x # xs = search @ z" by (auto simp: prefix_def)
  show ?thesis
    using True replaceAll_match [OF assms, of z] by (simp add: z)
next
  case False
  then show ?thesis using replaceAll_skip [OF assms False] by simp
qed

lemmas replaceAll_eval = replaceAll_step replaceAll_Nil reset0_def reset49_def cu_eval ESC_def DOLLAR_def

lemma ses_bg236: "single_escape_sequence bg236"
  by (simp add: single_escape_sequence_def bg236_def cu_eval ESC_def DOLLAR_def)

theorem applyCodeBg_background_after_resets_witness:
  "prefix bg236
     (applyCodeBg (defaults\<lparr>codeBlockBgAnsi := Some bg236\<rparr>)
        (cu ''a'' @ reset0 @ cu ''b'' @ reset49 @ cu ''c'')) \<and>
   applyCodeBg (defaults\<lparr>codeBlockBgAnsi := Some bg236\<rparr>)
     (cu ''a'' @ reset0 @ cu ''b'' @ reset49 @ cu ''c'') =
   bg236 @ cu ''a'' @ reset0 @ bg236 @ cu ''b'' @ bg236 @ cu ''c''"
proof -
  let ?o = "defaults\<lparr>codeBlockBgAnsi := Some bg236\<rparr>"
  have ne: "bg236 \<noteq> reset0"
    by (simp add: bg236_def reset0_def cu_eval)
  have h: "codeBlockBgAnsi ?o = Some bg236 \<and> single_escape_sequence bg236 \<and> bg236 \<noteq> reset0"
    using ses_bg236 ne by simp
  note T = applyCodeBg_background_after_resets
             [of ?o "cu ''a'' @ reset0 @ cu ''b'' @ reset49 @ cu ''c''" bg236]
  from T h have p: "prefix bg236 (applyCodeBg ?o (cu ''a'' @ reset0 @ cu ''b'' @ reset49 @ cu ''c''))"
    by blast
  from T h have "\<forall>u v. cu ''a'' @ reset0 @ cu ''b'' @ reset49 @ cu ''c'' = u @ reset49 @ v \<longrightarrow>
      applyCodeBg ?o (cu ''a'' @ reset0 @ cu ''b'' @ reset49 @ cu ''c'') = applyCodeBg ?o u @ applyCodeBg ?o v"
    by blast
  then have "applyCodeBg ?o (cu ''a'' @ reset0 @ cu ''b'' @ reset49 @ cu ''c'') =
        applyCodeBg ?o (cu ''a'' @ reset0 @ cu ''b'') @ applyCodeBg ?o (cu ''c'')"
    by (metis append.assoc)
  moreover have "applyCodeBg ?o (cu ''a'' @ reset0 @ cu ''b'') = bg236 @ cu ''a'' @ reset0 @ bg236 @ cu ''b''"
    by (simp add: applyCodeBg_def truthy_def bg236_def replaceAll_eval)
  moreover have "applyCodeBg ?o (cu ''c'') = bg236 @ cu ''c''"
    by (simp add: applyCodeBg_def truthy_def bg236_def replaceAll_eval)
  ultimately show ?thesis using p by simp
qed

theorem applyCodeBg_no_background_reset_witness:
  "\<not> occurs reset49
     (applyCodeBg (defaults\<lparr>codeBlockBgAnsi := Some bg236\<rparr>)
        (cu ''a'' @ reset0 @ cu ''b'' @ reset49 @ cu ''c''))"
proof -
  let ?o = "defaults\<lparr>codeBlockBgAnsi := Some bg236\<rparr>"
  have ne: "bg236 \<noteq> reset49"
    by (simp add: bg236_def reset49_def cu_eval)
  have h: "codeBlockBgAnsi ?o = Some bg236 \<and> single_escape_sequence bg236 \<and> \<not> occurs reset49 bg236"
    using ses_bg236 ses_occurs_reset49 [OF ses_bg236 ne] by simp
  from applyCodeBg_no_background_reset [of ?o bg236 "cu ''a'' @ reset0 @ cu ''b'' @ reset49 @ cu ''c''"] h
  show ?thesis by blast
qed

section \<open>The outer fence\<close>







































text \<open>
  Where the first line of the content is blank, the white space that the regular
  expression allows behind the keyword takes this line as well, and the result is not the
  content between the opening line and the closing line.
\<close>

lemma blank_line_example:
  "spec_outer_fence (trim (cu ''```md\<newline>\<newline>x\<newline>```'')) (cu ''\<newline>x'') \<and>
   blank_first_line (cu ''\<newline>x'') \<and>
   stripOuterMarkdownFence (cu ''```md\<newline>\<newline>x\<newline>```'') = cu ''x''"
proof -
  have t: "trim (cu ''```md\<newline>\<newline>x\<newline>```'') = fence3 @ [109, 100, 10, 10, 120, 10, 96, 96, 96]"
    by (simp add: trim_eval fence3_def BACKTICK_def)
  have "fence3 @ [109, 100, 10, 10, 120, 10, 96, 96, 96] =
        fence3 @ [] @ cu ''md'' @ [LF] @ cu ''\<newline>x'' @ [LF] @ fence3 @ []"
    by (simp add: cu_eval LF_def fence3_def BACKTICK_def)
  moreover have "all_space []" "is_keyword (cu ''md'')" "line_break [LF]"
    by (simp_all add: all_space_def is_keyword_def line_break_def)
  ultimately have "spec_outer_fence (trim (cu ''```md\<newline>\<newline>x\<newline>```'')) (cu ''\<newline>x'')"
    unfolding spec_outer_fence_def t by blast
  moreover have "blank_first_line (cu ''\<newline>x'')"
    by (simp add: blank_first_line_def cu_eval LF_def all_space_def)
  moreover have "stripOuterMarkdownFence (cu ''```md\<newline>\<newline>x\<newline>```'') = cu ''x''"
    by (simp add: fence_eval)
  ultimately show ?thesis by blast
qed






end
